theory Spec2Isabelle
  imports Complex_Main
begin

section \<open>Python values and errors\<close>

text \<open>
  The two source files are \<^verbatim>\<open>at.py\<close> (the FGM perturbation engine) and
  \<^verbatim>\<open>run_ld.py\<close> (warm-up schedule, confidence ranker, training loop, orchestrator).
  Python floats are modelled by exact reals; every place where the Python raises is a
  branch returning \<open>Inl\<close> of the exception.
\<close>

datatype py_error = IndexError | ZeroDivisionError | AssertionError | AttributeError

section \<open>Warm-up schedule (\<^verbatim>\<open>run_ld.py\<close>, \<^verbatim>\<open>warmup_linear\<close>)\<close>

text \<open>
  \<^verbatim>\<open>
  def warmup_linear(x, warmup=0.002):
      if x < warmup:
          return x / warmup
      return 1.0 - x
  \<close>
  Float division by \<open>0.0\<close> raises \<open>ZeroDivisionError\<close> in Python.
\<close>

definition warmup_linear :: "real \<Rightarrow> real \<Rightarrow> py_error + real" where
  "warmup_linear x warmup =
     (if x < warmup then (if warmup = 0 then Inl ZeroDivisionError else Inr (x / warmup))
      else Inr (1 - x))"

text \<open>
  The learning rate of one optimizer step in \<^verbatim>\<open>train\<close>:
  \<^verbatim>\<open>
  lr_this_step = args.learning_rate * warmup_linear(args.global_step / args.t_total,
                                                    args.warmup_proportion)
  \<close>
  \<open>global_step\<close> and \<open>t_total\<close> are Python ints, \<open>/\<close> is true division.
\<close>

definition lr_this_step :: "real \<Rightarrow> int \<Rightarrow> int \<Rightarrow> real \<Rightarrow> py_error + real" where
  "lr_this_step learning_rate global_step t_total warmup_proportion =
     (if t_total = 0 then Inl ZeroDivisionError
      else (case warmup_linear (real_of_int global_step / real_of_int t_total) warmup_proportion of
              Inl e \<Rightarrow> Inl e
            | Inr f \<Rightarrow> Inr (learning_rate * f)))"

section \<open>Perturbation engine (\<^verbatim>\<open>at.py\<close>, class \<^verbatim>\<open>FGM\<close>)\<close>

text \<open>
  A model parameter as \<^verbatim>\<open>attack\<close> and \<^verbatim>\<open>restore\<close> see it: the flag
  \<^verbatim>\<open>requires_grad\<close>, the tensor \<^verbatim>\<open>data\<close> and the gradient \<^verbatim>\<open>grad\<close>, which is
  \<^verbatim>\<open>None\<close> until a backward pass has filled it. The tensor type \<open>'t\<close> is left open.
\<close>

record 't parameter =
  requires_grad :: bool
  data :: 't
  grad :: "'t option"

text \<open>
  The operations of the tensor library that \<^verbatim>\<open>attack\<close> calls are parameters of the
  model: \<^verbatim>\<open>torch.norm\<close>, the test \<^verbatim>\<open>norm != 0\<close>, \<^verbatim>\<open>torch.isnan\<close>, the product
  \<^verbatim>\<open>epsilon * grad\<close>, the quotient by the norm and the in-place \<^verbatim>\<open>add_\<close>. The type
  \<open>'s\<close> is that of the norm (a zero-dimensional tensor).
\<close>

record ('t, 's) torch =
  t_norm :: "'t \<Rightarrow> 's"
  t_ne_zero :: "'s \<Rightarrow> bool"
  t_isnan :: "'s \<Rightarrow> bool"
  t_mul :: "real \<Rightarrow> 't \<Rightarrow> 't"
  t_div :: "'t \<Rightarrow> 's \<Rightarrow> 't"
  t_add :: "'t \<Rightarrow> 't \<Rightarrow> 't"

text \<open>
  The state of an \<^verbatim>\<open>FGM\<close> object: \<^verbatim>\<open>self.model.named_parameters()\<close> as the list of
  (name, parameter) pairs in iteration order, and the dictionary \<^verbatim>\<open>self.backup\<close>.
  \<^verbatim>\<open>named_parameters\<close> yields every name once, so the names of a well-formed
  state are distinct.
\<close>

record 't fgm =
  model :: "(string \<times> 't parameter) list"
  backup :: "string \<rightharpoonup> 't"

text \<open>The substring test \<^verbatim>\<open>emb_name in name\<close> on Python strings.\<close>

fun is_prefix :: "string \<Rightarrow> string \<Rightarrow> bool" where
  "is_prefix [] s = True"
| "is_prefix (c # cs) [] = False"
| "is_prefix (c # cs) (d # ds) = (c = d \<and> is_prefix cs ds)"

fun str_contains :: "string \<Rightarrow> string \<Rightarrow> bool" where
  "str_contains sub [] = (sub = [])"
| "str_contains sub (c # cs) = (is_prefix sub (c # cs) \<or> str_contains sub cs)"

text \<open>
  \<^verbatim>\<open>
  def attack(self, epsilon=1.0, emb_name='bert.embeddings.word_embeddings.'):
      # emb_name should be consistent with name in actual model
      cos = torch.nn.CosineSimilarity(dim=1, eps=1e-6)
      for name, param in self.model.named_parameters():
          if param.requires_grad and emb_name in name:
              self.backup[name] = param.data.clone()
              norm = torch.norm(param.grad)
              if norm != 0 and not torch.isnan(norm):
                  r_at = epsilon * param.grad / norm
                  param.data.add_(r_at)
  \<close>
  The value \<^verbatim>\<open>cos\<close> is never used. The loop threads the backup through the
  parameters and returns the updated parameters with it; \<^verbatim>\<open>clone\<close> copies the tensor,
  so the snapshot is the value itself. \<^verbatim>\<open>torch.norm(None)\<close> raises, which ends the call.
\<close>

fun attack_loop :: "('t, 's) torch \<Rightarrow> real \<Rightarrow> string \<Rightarrow> (string \<times> 't parameter) list
    \<Rightarrow> (string \<rightharpoonup> 't) \<Rightarrow> py_error + ((string \<times> 't parameter) list \<times> (string \<rightharpoonup> 't))" where
  "attack_loop T epsilon emb_name [] bk = Inr ([], bk)"
| "attack_loop T epsilon emb_name ((name, param) # rest) bk =
     (if requires_grad param \<and> str_contains emb_name name then
        (case grad param of
           None \<Rightarrow> Inl AttributeError
         | Some g \<Rightarrow>
             (let bk1 = bk(name \<mapsto> data param);
                  norm = t_norm T g;
                  param1 = (if t_ne_zero T norm \<and> \<not> t_isnan T norm
                            then param\<lparr>data := t_add T (data param) (t_div T (t_mul T epsilon g) norm)\<rparr>
                            else param)
              in (case attack_loop T epsilon emb_name rest bk1 of
                    Inl e \<Rightarrow> Inl e
                  | Inr (ps, bk') \<Rightarrow> Inr ((name, param1) # ps, bk'))))
      else (case attack_loop T epsilon emb_name rest bk of
              Inl e \<Rightarrow> Inl e
            | Inr (ps, bk') \<Rightarrow> Inr ((name, param) # ps, bk')))"

definition attack :: "('t, 's) torch \<Rightarrow> real \<Rightarrow> string \<Rightarrow> 't fgm \<Rightarrow> py_error + 't fgm" where
  "attack T epsilon emb_name s =
     (case attack_loop T epsilon emb_name (model s) (backup s) of
        Inl e \<Rightarrow> Inl e
      | Inr (ps, bk) \<Rightarrow> Inr (s\<lparr>model := ps, backup := bk\<rparr>))"

text \<open>
  \<^verbatim>\<open>
  def restore(self, emb_name='bert.embeddings.word_embeddings.'):
      for name, param in self.model.named_parameters():
          if param.requires_grad and emb_name in name:
              assert name in self.backup
              param.data = self.backup[name]
      self.backup = {}
  \<close>
\<close>

fun restore_loop :: "string \<Rightarrow> (string \<times> 't parameter) list \<Rightarrow> (string \<rightharpoonup> 't)
    \<Rightarrow> py_error + (string \<times> 't parameter) list" where
  "restore_loop emb_name [] bk = Inr []"
| "restore_loop emb_name ((name, param) # rest) bk =
     (if requires_grad param \<and> str_contains emb_name name then
        (case bk name of
           None \<Rightarrow> Inl AssertionError
         | Some v \<Rightarrow>
             (case restore_loop emb_name rest bk of
                Inl e \<Rightarrow> Inl e
              | Inr ps \<Rightarrow> Inr ((name, param\<lparr>data := v\<rparr>) # ps)))
      else (case restore_loop emb_name rest bk of
              Inl e \<Rightarrow> Inl e
            | Inr ps \<Rightarrow> Inr ((name, param) # ps)))"

definition restore :: "string \<Rightarrow> 't fgm \<Rightarrow> py_error + 't fgm" where
  "restore emb_name s =
     (case restore_loop emb_name (model s) (backup s) of
        Inl e \<Rightarrow> Inl e
      | Inr ps \<Rightarrow> Inr (s\<lparr>model := ps, backup := Map.empty\<rparr>))"

text \<open>The guard of both loops: the parameter is trainable and its name matches the filter.\<close>

definition targeted :: "string \<Rightarrow> string \<times> 't parameter \<Rightarrow> bool" where
  "targeted emb_name np = (requires_grad (snd np) \<and> str_contains emb_name (fst np))"

text \<open>
  An instance of the tensor operations for concrete runs: tensors are vectors of reals,
  the norm is the Euclidean one, and no value is NaN.
\<close>

definition real_torch :: "(real list, real) torch" where
  "real_torch = \<lparr> t_norm = (\<lambda>g. sqrt (sum_list (map (\<lambda>x. x * x) g))),
                  t_ne_zero = (\<lambda>n. n \<noteq> 0),
                  t_isnan = (\<lambda>n. False),
                  t_mul = (\<lambda>e g. map (\<lambda>x. e * x) g),
                  t_div = (\<lambda>g n. map (\<lambda>x. x / n) g),
                  t_add = (\<lambda>a b. map2 (+) a b) \<rparr>"

text \<open>What one pass of the body of \<^verbatim>\<open>attack\<close> makes of a single parameter.\<close>

definition perturbed :: "('t, 's) torch \<Rightarrow> real \<Rightarrow> string \<Rightarrow> string \<times> 't parameter
    \<Rightarrow> string \<times> 't parameter" where
  "perturbed T eps emb np =
     (case grad (snd np) of
        None \<Rightarrow> np
      | Some g \<Rightarrow>
          if targeted emb np \<and> t_ne_zero T (t_norm T g) \<and> \<not> t_isnan T (t_norm T g)
          then (fst np, (snd np)\<lparr>data := t_add T (data (snd np)) (t_div T (t_mul T eps g) (t_norm T g))\<rparr>)
          else np)"

section \<open>Confidence ranker (\<^verbatim>\<open>run_ld.py\<close>, \<^verbatim>\<open>sort\<close>)\<close>

subsection \<open>Pool entries and the object store\<close>

text \<open>
  The pools hold \<^verbatim>\<open>InputFeatures\<close> objects. \<^verbatim>\<open>sort\<close> writes the field
  \<^verbatim>\<open>label_id\<close> of an object that is held by both lists at that moment, so objects live
  in a store and the pools are lists of references: the reference is the identity of
  the example.
\<close>

record input_features =
  input_ids :: "int list"
  input_mask :: "int list"
  segment_ids :: "int list"
  label_id :: nat

type_synonym ref = nat

type_synonym store = "ref \<Rightarrow> input_features"

subsection \<open>Python built-ins used by the ranker\<close>

text \<open>
  \<^verbatim>\<open>sorted(xs, reverse=True, key=key)\<close>: the sort is stable and \<^verbatim>\<open>reverse=True\<close> keeps
  the original order of elements with equal keys; CPython reverses the list, sorts it
  stably in ascending order and reverses the result. The keys are taken from a linear
  order: this is Python's \<^verbatim>\<open>sorted\<close> on keys that compare as numbers do, and it says
  nothing of a list with a NaN among its keys, which Python does not order.
\<close>

definition py_sorted_rev :: "('a \<Rightarrow> 'k::linorder) \<Rightarrow> 'a list \<Rightarrow> 'a list" where
  "py_sorted_rev key xs = rev (sort_key key (rev xs))"

text \<open>The slice \<^verbatim>\<open>xs[:k]\<close>; a negative \<open>k\<close> counts from the end.\<close>

definition py_slice_to :: "'a list \<Rightarrow> int \<Rightarrow> 'a list" where
  "py_slice_to xs k = (if 0 \<le> k then take (nat k) xs else take (length xs - nat (- k)) xs)"

text \<open>
  \<^verbatim>\<open>d[k] = v\<close> on a dictionary, which keeps its keys in insertion order: an existing key
  keeps its place, a new key goes to the end.
\<close>

fun dict_set :: "('k \<times> 'v) list \<Rightarrow> 'k \<Rightarrow> 'v \<Rightarrow> ('k \<times> 'v) list" where
  "dict_set [] k v = [(k, v)]"
| "dict_set (p # ps) k v = (if fst p = k then (k, v) # ps else p # dict_set ps k v)"

text \<open>\<^verbatim>\<open>str(i)\<close> for a non-negative integer.\<close>

function str_nat :: "nat \<Rightarrow> string" where
  "str_nat n = (if n < 10 then [''0123456789'' ! n]
                else str_nat (n div 10) @ [''0123456789'' ! (n mod 10)])"
  by pat_completeness auto
termination
  by (relation "measure id") auto

declare str_nat.simps [simp del]

text \<open>\<^verbatim>\<open>del xs[index]\<close> for a non-negative index.\<close>

definition py_del :: "'a list \<Rightarrow> nat \<Rightarrow> py_error + 'a list" where
  "py_del xs index = (if index < length xs then Inr (take index xs @ drop (Suc index) xs)
                      else Inl IndexError)"

subsection \<open>The ranker\<close>

text \<open>
  \<^verbatim>\<open>
  def sort(train_examples, eval_examples, label_list, id2conf, num_k):
      label2id = {}
      id2train = []
      ud_train_examples, ud_unlabel_examples = train_examples, eval_examples
      for i, item in enumerate(id2conf):
          if item[0] not in label2id.keys():
              label2id[item[0]] = {}
          label2id[item[0]][i] = item[1]

      for i in range(len(label_list)):
          if i not in label2id.keys():
              print("no class " + str(i))
              continue
          i2cs = label2id[i]
          sorted_i2cs = sorted(i2cs.items(), reverse=True, key=lambda kv: kv[1])
          for i2c in sorted_i2cs[:num_k]:
              id2train.append(i2c[0])
              ex = eval_examples[i2c[0]]
              ex.label_id = i
              ud_train_examples.append(ex)

      for index in sorted(id2train, reverse=True):
          del ud_unlabel_examples[index]

      return ud_train_examples, ud_unlabel_examples
  \<close>
  The local state of one call: the store, the two pools (\<^verbatim>\<open>ud_train_examples\<close> is the
  list \<^verbatim>\<open>train_examples\<close>, \<^verbatim>\<open>ud_unlabel_examples\<close> is the list \<^verbatim>\<open>eval_examples\<close>),
  \<^verbatim>\<open>id2train\<close>, and the lines printed. The two pools are two list objects, as in
  \<^verbatim>\<open>main\<close>. A confidence record is the pair of the predicted label (the \<^verbatim>\<open>argmax\<close>,
  a non-negative integer) and its score (the maximal softmax probability, a float that
  is not NaN, a real here).
\<close>

record sort_state =
  objects :: store
  ud_train_examples :: "ref list"
  ud_unlabel_examples :: "ref list"
  id2train :: "nat list"
  stdout :: "string list"

text \<open>First loop: group the indices of the records by predicted label.\<close>

fun label2id_loop :: "nat \<Rightarrow> (nat \<times> real) list \<Rightarrow> (nat \<rightharpoonup> (nat \<times> real) list)
    \<Rightarrow> (nat \<rightharpoonup> (nat \<times> real) list)" where
  "label2id_loop i [] label2id = label2id"
| "label2id_loop i (item # rest) label2id =
     (let d = (case label2id (fst item) of None \<Rightarrow> [] | Some d \<Rightarrow> d)
      in label2id_loop (Suc i) rest (label2id(fst item \<mapsto> dict_set d i (snd item))))"

text \<open>Innermost loop: promote the entries of \<^verbatim>\<open>sorted_i2cs[:num_k]\<close> with label \<open>i\<close>.\<close>

fun promote_loop :: "nat \<Rightarrow> (nat \<times> real) list \<Rightarrow> sort_state \<Rightarrow> py_error + sort_state" where
  "promote_loop i [] st = Inr st"
| "promote_loop i (i2c # rest) st =
     (if fst i2c < length (ud_unlabel_examples st) then
        (let ex = ud_unlabel_examples st ! fst i2c
         in promote_loop i rest
              (st\<lparr>id2train := id2train st @ [fst i2c],
                  objects := (objects st)(ex := (objects st ex)\<lparr>label_id := i\<rparr>),
                  ud_train_examples := ud_train_examples st @ [ex]\<rparr>))
      else Inl IndexError)"

text \<open>Second loop: the labels \<^verbatim>\<open>range(len(label_list))\<close> in order.\<close>

fun label_loop :: "(nat \<rightharpoonup> (nat \<times> real) list) \<Rightarrow> int \<Rightarrow> nat list \<Rightarrow> sort_state
    \<Rightarrow> py_error + sort_state" where
  "label_loop label2id num_k [] st = Inr st"
| "label_loop label2id num_k (i # rest) st =
     (case label2id i of
        None \<Rightarrow> label_loop label2id num_k rest (st\<lparr>stdout := stdout st @ [''no class '' @ str_nat i]\<rparr>)
      | Some i2cs \<Rightarrow>
          (case promote_loop i (py_slice_to (py_sorted_rev snd i2cs) num_k) st of
             Inl e \<Rightarrow> Inl e
           | Inr st' \<Rightarrow> label_loop label2id num_k rest st'))"

text \<open>Third loop: delete the promoted indices from the unlabeled pool.\<close>

fun del_loop :: "nat list \<Rightarrow> 'a list \<Rightarrow> py_error + 'a list" where
  "del_loop [] xs = Inr xs"
| "del_loop (index # rest) xs =
     (case py_del xs index of Inl e \<Rightarrow> Inl e | Inr xs' \<Rightarrow> del_loop rest xs')"

definition sort_pools :: "store \<Rightarrow> ref list \<Rightarrow> ref list \<Rightarrow> string list \<Rightarrow> (nat \<times> real) list \<Rightarrow> int
    \<Rightarrow> py_error + sort_state" where
  "sort_pools h train_examples eval_examples label_list id2conf num_k =
     (let label2id = label2id_loop 0 id2conf Map.empty;
          st0 = \<lparr>objects = h, ud_train_examples = train_examples,
                 ud_unlabel_examples = eval_examples, id2train = [], stdout = []\<rparr>
      in (case label_loop label2id num_k [0..<length label_list] st0 of
            Inl e \<Rightarrow> Inl e
          | Inr st \<Rightarrow>
              (case del_loop (py_sorted_rev (\<lambda>index. index) (id2train st)) (ud_unlabel_examples st) of
                 Inl e \<Rightarrow> Inl e
               | Inr unl \<Rightarrow> Inr (st\<lparr>ud_unlabel_examples := unl\<rparr>))))"

subsection \<open>What the ranker selects\<close>

text \<open>
  The candidates of label \<open>l\<close> among the records \<open>items\<close>, numbered from \<open>i\<close>: the
  pairs of index and score, in index order. The indices kept for label \<open>l\<close> are the
  first \<open>num_k\<close> of its candidates in descending order of score.
\<close>

definition cands :: "nat \<Rightarrow> (nat \<times> real) list \<Rightarrow> nat \<Rightarrow> (nat \<times> real) list" where
  "cands i items l = map (\<lambda>p. (fst p, snd (snd p))) (filter (\<lambda>p. fst (snd p) = l) (enumerate i items))"

definition chosen :: "(nat \<times> real) list \<Rightarrow> int \<Rightarrow> nat \<Rightarrow> nat list" where
  "chosen id2conf num_k l = map fst (py_slice_to (py_sorted_rev snd (cands 0 id2conf l)) num_k)"

definition promoted :: "(nat \<times> real) list \<Rightarrow> int \<Rightarrow> nat \<Rightarrow> nat list" where
  "promoted id2conf num_k n = concat (map (chosen id2conf num_k) [0..<n])"

section \<open>Training loop and orchestrator (\<^verbatim>\<open>run_ld.py\<close>, \<^verbatim>\<open>train\<close> and \<^verbatim>\<open>main\<close>)\<close>








section \<open>Properties of the warm-up schedule\<close>

text \<open>
  C5. For every progress ratio \<open>x \<ge> 0\<close> and warm-up fraction \<open>w > 0\<close>, the multiplier
  returned by \<open>warmup_linear\<close> is \<open>x / w\<close> when \<open>x < w\<close> and \<open>1 - x\<close> otherwise, also
  at \<open>x = w\<close> and beyond; the tail is not the normalised \<open>(1 - x) / (1 - w)\<close>, from
  which it differs wherever \<open>w \<le> x\<close>, \<open>x \<noteq> 1\<close> and \<open>w \<noteq> 1\<close>.
\<close>

theorem warmup_linear_schedule:
  assumes "0 \<le> x" and "0 < w"
  shows "warmup_linear x w = Inr (if x < w then x / w else 1 - x)
         \<and> (w \<le> x \<and> x \<noteq> 1 \<and> w \<noteq> 1 \<longrightarrow> warmup_linear x w \<noteq> Inr ((1 - x) / (1 - w)))"
proof -
  have branch: "warmup_linear x w = Inr (if x < w then x / w else 1 - x)"
    using assms by (simp add: warmup_linear_def)
  have tail: "warmup_linear x w \<noteq> Inr ((1 - x) / (1 - w))"
    if "w \<le> x" "x \<noteq> 1" "w \<noteq> 1"
  proof -
    have "(1 - x) / (1 - w) = 1 - x \<longleftrightarrow> (1 - x) = (1 - x) * (1 - w)"
      using that by (simp add: field_simps)
    also have "\<dots> \<longleftrightarrow> (1 - x) * w = 0"
      by (simp add: algebra_simps)
    finally have "(1 - x) / (1 - w) \<noteq> 1 - x"
      using that assms by simp
    then show ?thesis
      using that branch by auto
  qed
  show ?thesis using branch tail by blast
qed

theorem warmup_linear_schedule_witness:
  "(0::real) \<le> 1/2 \<and> (0::real) < 1/10
   \<and> warmup_linear (1/2) (1/10) = Inr (1/2)
   \<and> warmup_linear (1/2) (1/10) \<noteq> Inr ((1 - 1/2) / (1 - 1/10))
   \<and> warmup_linear (1/20) (1/10) = Inr (1/2)
   \<and> warmup_linear (1/10) (1/10) = Inr (9/10)"
  using warmup_linear_schedule [of "1/2" "1/10"] warmup_linear_schedule [of "1/20" "1/10"]
    warmup_linear_schedule [of "1/10" "1/10"]
  by simp

text \<open>
  C10. For every progress ratio \<open>x \<ge> 1\<close> and warm-up fraction \<open>w < 1\<close> the schedule
  returns \<open>1 - x \<le> 0\<close>; so once the step counter has reached the planned total
  (\<open>global_step \<ge> t_total > 0\<close>) the training loop sets the learning rate
  \<open>learning_rate * (1 - global_step / t_total)\<close>, which is zero or negative for a
  non-negative base rate: nothing clamps it at zero.
\<close>

theorem warmup_linear_past_total:
  assumes "1 \<le> x" and "w < 1"
    and "0 < t_total" and "t_total \<le> global_step" and "0 \<le> learning_rate"
  shows "warmup_linear x w = Inr (1 - x) \<and> 1 - x \<le> 0
         \<and> lr_this_step learning_rate global_step t_total w
             = Inr (learning_rate * (1 - real_of_int global_step / real_of_int t_total))
         \<and> learning_rate * (1 - real_of_int global_step / real_of_int t_total) \<le> 0"
proof -
  have a: "warmup_linear x w = Inr (1 - x)" "1 - x \<le> 0"
    using assms by (simp_all add: warmup_linear_def)
  have r: "1 \<le> real_of_int global_step / real_of_int t_total"
    using assms by (simp add: field_simps)
  then have "\<not> real_of_int global_step / real_of_int t_total < w"
    using assms by linarith
  then have b: "lr_this_step learning_rate global_step t_total w
             = Inr (learning_rate * (1 - real_of_int global_step / real_of_int t_total))"
    using assms by (simp add: lr_this_step_def warmup_linear_def)
  have c: "learning_rate * (1 - real_of_int global_step / real_of_int t_total) \<le> 0"
    using r assms by (simp add: mult_nonneg_nonpos)
  show ?thesis using a b c by simp
qed

theorem warmup_linear_past_total_witness:
  "(1::real) \<le> 8/7 \<and> (1/10::real) < 1 \<and> (0::int) < 7 \<and> (7::int) \<le> 8 \<and> (0::real) \<le> 5/100000
   \<and> warmup_linear (8/7) (1/10) = Inr (- 1/7)
   \<and> lr_this_step (5/100000) 8 7 (1/10) = Inr (5/100000 * (1 - 8/7))"
  using warmup_linear_past_total [of "8/7" "1/10" 7 8 "5/100000"]
  by simp

section \<open>Properties of the perturbation engine\<close>

lemma attack_loop_returns:
  "\<forall>np \<in> set ps. targeted emb np \<longrightarrow> grad (snd np) \<noteq> None
   \<Longrightarrow> \<exists>r. attack_loop T eps emb ps bk = Inr r"
proof (induction ps arbitrary: bk)
  case Nil
  then show ?case by simp
next
  case (Cons np ps)
  obtain n p where np: "np = (n, p)" by (cases np)
  from Cons.prems have rest: "\<forall>np \<in> set ps. targeted emb np \<longrightarrow> grad (snd np) \<noteq> None"
    by simp
  show ?case
  proof (cases "requires_grad p \<and> str_contains emb n")
    case True
    with Cons.prems np obtain g where g: "grad p = Some g"
      by (auto simp: targeted_def)
    from Cons.IH [OF rest, of "bk(n \<mapsto> data p)"] obtain r
      where "attack_loop T eps emb ps (bk(n \<mapsto> data p)) = Inr r" by blast
    then show ?thesis using True np g
      by (cases r) (simp add: Let_def)
  next
    case False
    from Cons.IH [OF rest, of bk] obtain r
      where "attack_loop T eps emb ps bk = Inr r" by blast
    then show ?thesis using False np
      by (cases r) auto
  qed
qed

lemma attack_loop_other_names:
  "attack_loop T eps emb ps bk = Inr (ps', bk') \<Longrightarrow> n \<notin> fst ` set ps \<Longrightarrow> bk' n = bk n"
proof (induction ps arbitrary: bk ps' bk')
  case Nil
  then show ?case by simp
next
  case (Cons np ps)
  obtain m p where np: "np = (m, p)" by (cases np)
  from Cons.prems np have nm: "n \<noteq> m" and nps: "n \<notin> fst ` set ps" by auto
  show ?case
  proof (cases "requires_grad p \<and> str_contains emb m")
    case True
    with Cons.prems(1) np obtain g rs where
      rs: "attack_loop T eps emb ps (bk(m \<mapsto> data p)) = Inr (rs, bk')"
      by (auto simp: Let_def split: option.splits sum.splits)
    from Cons.IH [OF rs nps] nm show ?thesis by simp
  next
    case False
    with Cons.prems(1) np obtain rs where
      rs: "attack_loop T eps emb ps bk = Inr (rs, bk')"
      by (auto split: sum.splits)
    from Cons.IH [OF rs nps] show ?thesis .
  qed
qed


lemma attack_loop_model:
  "attack_loop T eps emb ps bk = Inr (ps', bk') \<Longrightarrow> ps' = map (perturbed T eps emb) ps"
proof (induction ps arbitrary: bk ps' bk')
  case Nil
  then show ?case by simp
next
  case (Cons np ps)
  obtain m p where np: "np = (m, p)" by (cases np)
  show ?case
  proof (cases "requires_grad p \<and> str_contains emb m")
    case True
    with Cons.prems np obtain g rs where g: "grad p = Some g"
      and rs: "attack_loop T eps emb ps (bk(m \<mapsto> data p)) = Inr (rs, bk')"
      and ps': "ps' = perturbed T eps emb (m, p) # rs"
      by (auto simp: Let_def perturbed_def targeted_def split: option.splits sum.splits)
    from Cons.IH [OF rs] ps' np show ?thesis by simp
  next
    case False
    with Cons.prems np obtain rs where
      rs: "attack_loop T eps emb ps bk = Inr (rs, bk')" and ps': "ps' = (m, p) # rs"
      by (auto split: sum.splits)
    have "perturbed T eps emb (m, p) = (m, p)"
      using False by (auto simp: perturbed_def targeted_def split: option.splits)
    with Cons.IH [OF rs] ps' np show ?thesis by simp
  qed
qed

lemma attack_loop_snapshot:
  "attack_loop T eps emb ps bk = Inr (ps', bk') \<Longrightarrow> distinct (map fst ps)
   \<Longrightarrow> np \<in> set ps \<Longrightarrow> targeted emb np \<Longrightarrow> bk' (fst np) = Some (data (snd np))"
proof (induction ps arbitrary: bk ps' bk')
  case Nil
  then show ?case by simp
next
  case (Cons mp ps)
  obtain m p where mp: "mp = (m, p)" by (cases mp)
  from Cons.prems(2) mp have fresh: "m \<notin> fst ` set ps" and dist: "distinct (map fst ps)"
    by auto
  obtain bk1 rs where rs: "attack_loop T eps emb ps bk1 = Inr (rs, bk')"
    and bk1: "targeted emb (m, p) \<Longrightarrow> bk1 = bk(m \<mapsto> data p)"
    using Cons.prems(1) mp
    by (cases "requires_grad p \<and> str_contains emb m")
       (auto simp: Let_def targeted_def split: option.splits sum.splits)
  show ?case
  proof (cases "np = mp")
    case True
    with Cons.prems(4) mp bk1 have "bk1 = bk(m \<mapsto> data p)" by simp
    with attack_loop_other_names [OF rs fresh] True mp show ?thesis by simp
  next
    case False
    with Cons.prems(3) have "np \<in> set ps" by simp
    from Cons.IH [OF rs dist this Cons.prems(4)] show ?thesis .
  qed
qed

lemma attack_loop_covers:
  "attack_loop T eps emb ps bk = Inr (ps', bk') \<Longrightarrow>
   dom bk \<subseteq> dom bk' \<and> (\<forall>np \<in> set ps. targeted emb np \<longrightarrow> fst np \<in> dom bk')"
proof (induction ps arbitrary: bk ps' bk')
  case Nil
  then show ?case by simp
next
  case (Cons mp ps)
  obtain m p where mp: "mp = (m, p)" by (cases mp)
  show ?case
  proof (cases "requires_grad p \<and> str_contains emb m")
    case True
    with Cons.prems mp obtain rs where
      rs: "attack_loop T eps emb ps (bk(m \<mapsto> data p)) = Inr (rs, bk')"
      by (auto simp: Let_def split: option.splits sum.splits)
    from Cons.IH [OF rs] have sub: "dom (bk(m \<mapsto> data p)) \<subseteq> dom bk'"
      and rest: "\<forall>np \<in> set ps. targeted emb np \<longrightarrow> fst np \<in> dom bk'"
      by blast+
    have "dom bk \<subseteq> dom (bk(m \<mapsto> data p))" and "m \<in> dom (bk(m \<mapsto> data p))"
      by auto
    with sub have "dom bk \<subseteq> dom bk'" and "m \<in> dom bk'"
      by blast+
    with rest mp show ?thesis by simp
  next
    case False
    with Cons.prems mp obtain rs where
      rs: "attack_loop T eps emb ps bk = Inr (rs, bk')"
      by (auto split: sum.splits)
    from Cons.IH [OF rs] mp False show ?thesis by (auto simp: targeted_def)
  qed
qed

lemma targeted_perturbed [simp]: "targeted emb (perturbed T eps emb' np) = targeted emb np"
  by (simp add: perturbed_def targeted_def split: option.splits)

lemma fst_perturbed [simp]: "fst (perturbed T eps emb np) = fst np"
  by (simp add: perturbed_def split: option.splits)

lemma restore_loop_returns:
  "\<forall>np \<in> set ps. targeted emb np \<longrightarrow> fst np \<in> dom bk \<Longrightarrow> \<exists>r. restore_loop emb ps bk = Inr r"
proof (induction ps)
  case Nil
  then show ?case by simp
next
  case (Cons mp ps)
  obtain m p where mp: "mp = (m, p)" by (cases mp)
  from Cons obtain r where r: "restore_loop emb ps bk = Inr r" by auto
  show ?case
  proof (cases "requires_grad p \<and> str_contains emb m")
    case True
    with Cons.prems mp obtain v where "bk m = Some v" by (auto simp: targeted_def)
    with True r mp show ?thesis by simp
  next
    case False
    with r mp show ?thesis by auto
  qed
qed

lemma restore_loop_undoes:
  "\<forall>np \<in> set ps. targeted emb np \<longrightarrow> bk (fst np) = Some (data (snd np))
   \<Longrightarrow> restore_loop emb (map (perturbed T eps emb) ps) bk = Inr ps"
proof (induction ps)
  case Nil
  then show ?case by simp
next
  case (Cons mp ps)
  obtain m p where mp: "mp = (m, p)" by (cases mp)
  from Cons have r: "restore_loop emb (map (perturbed T eps emb) ps) bk = Inr ps" by simp
  obtain p' where p': "perturbed T eps emb (m, p) = (m, p')"
    by (metis fst_perturbed fst_conv prod.collapse)
  have tg: "targeted emb (m, p') = targeted emb (m, p)"
    using targeted_perturbed [of emb T eps emb "(m, p)"] p' by simp
  show ?case
  proof (cases "targeted emb (m, p)")
    case True
    with Cons.prems mp have b: "bk m = Some (data p)" by simp
    have "p'\<lparr>data := data p\<rparr> = p"
      using p' by (auto simp: perturbed_def split: option.splits if_splits)
    with True tg b r mp p' show ?thesis by (simp add: targeted_def)
  next
    case False
    then have "p' = p" using p' by (simp add: perturbed_def split: option.splits)
    with False r mp p' show ?thesis by (auto simp: targeted_def)
  qed
qed

text \<open>
  C1, as stated: a targeted trainable parameter whose gradient norm is exactly 0 is left
  unaltered by \<open>attack\<close> and gets no entry in the backup. The second half fails:
  \<open>attack\<close> stores the snapshot before it looks at the norm. Here the only parameter
  has the zero gradient \<open>[0, 0]\<close>, the backup starts empty, and after the call the
  backup holds the value \<open>[1, 2]\<close> under the parameter's name.
\<close>

theorem attack_skip_makes_backup_entry:
  "\<not> t_ne_zero real_torch (t_norm real_torch [0, 0])
   \<and> (case attack real_torch 1 ''bert.embeddings.word_embeddings.''
          \<lparr>model = [(''bert.embeddings.word_embeddings.weight'',
                      \<lparr>requires_grad = True, data = [1, 2], grad = Some [0, 0]\<rparr>)],
           backup = Map.empty\<rparr>
        of Inl e \<Rightarrow> None
         | Inr s' \<Rightarrow> backup s' ''bert.embeddings.word_embeddings.weight'') = Some [1, 2]"
  by (simp add: attack_def real_torch_def)

text \<open>
  C1, amended: for every targeted trainable parameter whose gradient norm is 0 or NaN, a
  call to \<open>attack\<close> (which returns normally when every targeted parameter has a
  gradient) leaves the parameter unaltered, and the backup then holds a snapshot of that
  unaltered value under the parameter's name.
\<close>

theorem attack_skip_keeps_value:
  assumes "distinct (map fst (model s))"
    and "\<forall>np \<in> set (model s). targeted emb np \<longrightarrow> grad (snd np) \<noteq> None"
    and "i < length (model s)" and "model s ! i = (n, p)" and "targeted emb (n, p)"
    and "grad p = Some g" and "\<not> t_ne_zero T (t_norm T g) \<or> t_isnan T (t_norm T g)"
  shows "\<exists>s'. attack T eps emb s = Inr s' \<and> model s' ! i = (n, p)
              \<and> backup s' n = Some (data p)"
proof -
  from attack_loop_returns [OF assms(2)] obtain ps' bk'
    where run: "attack_loop T eps emb (model s) (backup s) = Inr (ps', bk')"
    by (metis surj_pair)
  have mem: "(n, p) \<in> set (model s)"
    using assms(3,4) by (metis nth_mem)
  have "perturbed T eps emb (n, p) = (n, p)"
    using assms(6,7) by (auto simp: perturbed_def)
  with attack_loop_model [OF run] assms(3,4) have "ps' ! i = (n, p)"
    by simp
  moreover from attack_loop_snapshot [OF run assms(1) mem assms(5)]
  have "bk' n = Some (data p)" by simp
  ultimately show ?thesis using run by (simp add: attack_def)
qed

theorem attack_skip_keeps_value_witness:
  "targeted ''bert.embeddings.word_embeddings.''
     (''bert.embeddings.word_embeddings.weight'',
      \<lparr>requires_grad = True, data = [1, 2::real], grad = Some [0, 0]\<rparr>)
   \<and> \<not> t_ne_zero real_torch (t_norm real_torch [0, 0])
   \<and> (\<exists>s'. attack real_torch 1 ''bert.embeddings.word_embeddings.''
               \<lparr>model = [(''bert.embeddings.word_embeddings.weight'',
                           \<lparr>requires_grad = True, data = [1, 2], grad = Some [0, 0]\<rparr>),
                          (''classifier.weight'',
                           \<lparr>requires_grad = True, data = [5], grad = None\<rparr>)],
                backup = Map.empty\<rparr> = Inr s'
            \<and> model s' ! 0 = (''bert.embeddings.word_embeddings.weight'',
                               \<lparr>requires_grad = True, data = [1, 2], grad = Some [0, 0]\<rparr>)
            \<and> backup s' ''bert.embeddings.word_embeddings.weight'' = Some [1, 2])"
proof -
  let ?p = "\<lparr>requires_grad = True, data = [1, 2::real], grad = Some [0, 0]\<rparr>"
  let ?s = "\<lparr>model = [(''bert.embeddings.word_embeddings.weight'', ?p),
                     (''classifier.weight'',
                      \<lparr>requires_grad = True, data = [5], grad = None\<rparr>)],
             backup = Map.empty\<rparr>"
  let ?emb = "''bert.embeddings.word_embeddings.''"
  let ?n = "''bert.embeddings.word_embeddings.weight''"
  have h1: "distinct (map fst (model ?s))" by simp
  have h2: "\<forall>np \<in> set (model ?s). targeted ?emb np \<longrightarrow> grad (snd np) \<noteq> None"
    by (simp add: targeted_def)
  have h3: "0 < length (model ?s)" by simp
  have h4: "model ?s ! 0 = (?n, ?p)" by simp
  have h5: "targeted ?emb (?n, ?p)" by (simp add: targeted_def)
  have h6: "grad ?p = Some [0, 0]" by simp
  have h8: "\<not> t_ne_zero real_torch (t_norm real_torch [0, 0])"
    by (simp add: real_torch_def)
  then have h7: "\<not> t_ne_zero real_torch (t_norm real_torch [0, 0])
            \<or> t_isnan real_torch (t_norm real_torch [0, 0])"
    by simp
  have "data ?p = [1, 2]" by simp
  with attack_skip_keeps_value [OF h1 h2 h3 h4 h5 h6 h7, of 1] h5 h8
  show ?thesis by metis
qed

text \<open>
  C2. When every targeted trainable parameter has a gradient whose norm is nonzero and
  not NaN, \<open>attack\<close> followed at once by \<open>restore\<close> with the same filter returns
  normally, every parameter is again what it was before the attack, and the backup is
  empty.
\<close>

theorem attack_restore_round_trip:
  assumes "distinct (map fst (model s))"
    and "\<forall>np \<in> set (model s). targeted emb np \<longrightarrow>
           (\<exists>g. grad (snd np) = Some g \<and> t_ne_zero T (t_norm T g) \<and> \<not> t_isnan T (t_norm T g))"
  shows "\<exists>s' s''. attack T eps emb s = Inr s' \<and> restore emb s' = Inr s''
                  \<and> model s'' = model s \<and> backup s'' = Map.empty"
proof -
  have grads: "\<forall>np \<in> set (model s). targeted emb np \<longrightarrow> grad (snd np) \<noteq> None"
    using assms(2) by auto
  from attack_loop_returns [OF grads] obtain ps' bk'
    where run: "attack_loop T eps emb (model s) (backup s) = Inr (ps', bk')"
    by (metis surj_pair)
  have ps': "ps' = map (perturbed T eps emb) (model s)"
    by (rule attack_loop_model [OF run])
  have "\<forall>np \<in> set (model s). targeted emb np \<longrightarrow> bk' (fst np) = Some (data (snd np))"
    using attack_loop_snapshot [OF run assms(1)] by blast
  then have undone: "restore_loop emb ps' bk' = Inr (model s)"
    unfolding ps' by (rule restore_loop_undoes)
  let ?s' = "s\<lparr>model := ps', backup := bk'\<rparr>"
  let ?s'' = "?s'\<lparr>model := model s, backup := Map.empty\<rparr>"
  have "attack T eps emb s = Inr ?s'"
    using run by (simp add: attack_def)
  moreover have "restore emb ?s' = Inr ?s''"
    using undone by (simp add: restore_def)
  moreover have "model ?s'' = model s" and "backup ?s'' = Map.empty"
    by simp_all
  ultimately show ?thesis by blast
qed

theorem attack_restore_round_trip_witness:
  "t_ne_zero real_torch (t_norm real_torch [3, 4])
   \<and> (\<exists>s' s''. attack real_torch 1 ''bert.embeddings.word_embeddings.''
               \<lparr>model = [(''bert.embeddings.word_embeddings.weight'',
                           \<lparr>requires_grad = True, data = [1, 2], grad = Some [3, 4]\<rparr>),
                          (''classifier.weight'',
                           \<lparr>requires_grad = True, data = [5], grad = Some [0]\<rparr>)],
                backup = Map.empty\<rparr> = Inr s'
            \<and> restore ''bert.embeddings.word_embeddings.'' s' = Inr s''
            \<and> model s'' = [(''bert.embeddings.word_embeddings.weight'',
                           \<lparr>requires_grad = True, data = [1, 2], grad = Some [3, 4]\<rparr>),
                          (''classifier.weight'',
                           \<lparr>requires_grad = True, data = [5], grad = Some [0]\<rparr>)]
            \<and> backup s'' = Map.empty)"
proof -
  let ?ps = "[(''bert.embeddings.word_embeddings.weight'',
                \<lparr>requires_grad = True, data = [1, 2::real], grad = Some [3, 4]\<rparr>),
              (''classifier.weight'',
                \<lparr>requires_grad = True, data = [5], grad = Some [0]\<rparr>)]"
  let ?s = "\<lparr>model = ?ps, backup = Map.empty\<rparr>"
  let ?emb = "''bert.embeddings.word_embeddings.''"
  have h0: "t_ne_zero real_torch (t_norm real_torch [3, 4])"
    by (simp add: real_torch_def)
  have h1: "distinct (map fst (model ?s))" by simp
  have h2: "\<forall>np \<in> set (model ?s). targeted ?emb np \<longrightarrow>
           (\<exists>g. grad (snd np) = Some g \<and> t_ne_zero real_torch (t_norm real_torch g)
                \<and> \<not> t_isnan real_torch (t_norm real_torch g))"
    by (simp add: targeted_def real_torch_def)
  have "model ?s = ?ps" by simp
  with attack_restore_round_trip [OF h1 h2, of 1] h0
  show ?thesis by metis
qed

text \<open>
  C9. A \<open>restore\<close> that follows an \<open>attack\<close> with the same filter on the same
  parameters never fails its assertion: \<open>attack\<close> has stored a snapshot for every
  targeted trainable parameter, whatever its gradient norm was.
\<close>

theorem restore_after_attack_succeeds:
  assumes "attack T eps emb s = Inr s'"
  shows "(\<exists>s''. restore emb s' = Inr s'')
         \<and> (\<forall>np \<in> set (model s). targeted emb np \<longrightarrow> backup s' (fst np) \<noteq> None)"
proof -
  from assms obtain ps' bk'
    where run: "attack_loop T eps emb (model s) (backup s) = Inr (ps', bk')"
      and s': "s' = s\<lparr>model := ps', backup := bk'\<rparr>"
    by (auto simp: attack_def split: sum.splits)
  from attack_loop_covers [OF run]
  have cov: "\<forall>np \<in> set (model s). targeted emb np \<longrightarrow> fst np \<in> dom bk'"
    by blast
  have "\<forall>np \<in> set ps'. targeted emb np \<longrightarrow> fst np \<in> dom bk'"
    unfolding attack_loop_model [OF run] using cov by simp
  from restore_loop_returns [OF this] obtain r where "restore_loop emb ps' bk' = Inr r"
    by blast
  then have "\<exists>s''. restore emb s' = Inr s''"
    using s' by (simp add: restore_def)
  moreover have "\<forall>np \<in> set (model s). targeted emb np \<longrightarrow> backup s' (fst np) \<noteq> None"
    using cov s' by auto
  ultimately show ?thesis by blast
qed

theorem restore_after_attack_succeeds_witness:
  "attack real_torch 1 ''bert.embeddings.word_embeddings.''
     \<lparr>model = [(''bert.embeddings.word_embeddings.weight'',
                 \<lparr>requires_grad = True, data = [1, 2], grad = Some [0, 0]\<rparr>)],
      backup = Map.empty\<rparr>
   = Inr \<lparr>model = [(''bert.embeddings.word_embeddings.weight'',
                 \<lparr>requires_grad = True, data = [1, 2], grad = Some [0, 0]\<rparr>)],
          backup = [''bert.embeddings.word_embeddings.weight'' \<mapsto> [1, 2]]\<rparr>
   \<and> (\<exists>s''. restore ''bert.embeddings.word_embeddings.''
              \<lparr>model = [(''bert.embeddings.word_embeddings.weight'',
                 \<lparr>requires_grad = True, data = [1, 2::real], grad = Some [0, 0]\<rparr>)],
               backup = [''bert.embeddings.word_embeddings.weight'' \<mapsto> [1, 2]]\<rparr> = Inr s'')"
proof -
  have run: "attack real_torch 1 ''bert.embeddings.word_embeddings.''
     \<lparr>model = [(''bert.embeddings.word_embeddings.weight'',
                 \<lparr>requires_grad = True, data = [1, 2], grad = Some [0, 0]\<rparr>)],
      backup = Map.empty\<rparr>
   = Inr \<lparr>model = [(''bert.embeddings.word_embeddings.weight'',
                 \<lparr>requires_grad = True, data = [1, 2], grad = Some [0, 0]\<rparr>)],
          backup = [''bert.embeddings.word_embeddings.weight'' \<mapsto> [1, 2]]\<rparr>"
    by (simp add: attack_def real_torch_def)
  from restore_after_attack_succeeds [OF run] run show ?thesis by blast
qed

section \<open>Properties of the confidence ranker\<close>

subsection \<open>Python built-ins\<close>

lemma set_py_sorted_rev [simp]: "set (py_sorted_rev key xs) = set xs"
  by (simp add: py_sorted_rev_def)

lemma length_py_sorted_rev [simp]: "length (py_sorted_rev key xs) = length xs"
  by (simp add: py_sorted_rev_def)

lemma distinct_py_sorted_rev [simp]: "distinct (py_sorted_rev key xs) = distinct xs"
  by (simp add: py_sorted_rev_def)

lemma distinct_map_py_sorted_rev:
  "distinct (map f xs) \<Longrightarrow> distinct (map f (py_sorted_rev key xs))"
  by (simp add: distinct_map)

lemma py_sorted_rev_descending: "sorted (rev (map key (py_sorted_rev key xs)))"
  by (simp add: py_sorted_rev_def rev_map [symmetric])

lemma py_sorted_rev_stable:
  "filter (\<lambda>y. key y = k) (py_sorted_rev key xs) = filter (\<lambda>y. key y = k) xs"
  by (simp add: py_sorted_rev_def rev_filter [symmetric] sort_key_stable)

lemma py_slice_to_take: "\<exists>m. py_slice_to xs k = take m xs"
  by (auto simp: py_slice_to_def)

lemma set_py_slice_to: "set (py_slice_to xs k) \<subseteq> set xs"
  by (metis py_slice_to_take set_take_subset)

lemma length_py_slice_to: "0 \<le> k \<Longrightarrow> length (py_slice_to xs k) = min (nat k) (length xs)"
  by (simp add: py_slice_to_def min_def)

lemma distinct_map_py_slice_to: "distinct (map f xs) \<Longrightarrow> distinct (map f (py_slice_to xs k))"
  by (metis py_slice_to_take distinct_take take_map)

lemma dict_set_new: "k \<notin> fst ` set d \<Longrightarrow> dict_set d k v = d @ [(k, v)]"
  by (induction d) auto

subsection \<open>Candidates of a label\<close>

lemma cands_Nil [simp]: "cands i [] l = []"
  by (simp add: cands_def)

lemma cands_Cons:
  "cands i (item # rest) l =
     (if fst item = l then (i, snd item) # cands (Suc i) rest l else cands (Suc i) rest l)"
  by (simp add: cands_def)

lemma cands_index_lower: "kv \<in> set (cands i items l) \<Longrightarrow> i \<le> fst kv"
  by (auto simp: cands_def in_set_enumerate_eq)

lemma in_cands_iff:
  "(j, c) \<in> set (cands i items l) \<longleftrightarrow> i \<le> j \<and> j < i + length items \<and> items ! (j - i) = (l, c)"
  by (auto simp: cands_def in_set_enumerate_eq image_iff prod_eq_iff)

lemma map_fst_cands: "map fst (cands i items l) = map fst (filter (\<lambda>p. fst (snd p) = l) (enumerate i items))"
  by (simp add: cands_def comp_def)

lemma distinct_cands: "distinct (map fst (cands i items l))"
  unfolding map_fst_cands by (rule distinct_map_filter) simp

lemma sorted_cands: "sorted_wrt (<) (map fst (cands i items l))"
proof -
  have "sorted_wrt (\<lambda>p q. fst p < fst q) (enumerate i items)"
    using sorted_wrt_map [of "(<)" fst "enumerate i items"] by simp
  then have "sorted_wrt (\<lambda>p q. fst p < fst q) (filter (\<lambda>p. fst (snd p) = l) (enumerate i items))"
    by (rule sorted_wrt_filter)
  then show ?thesis unfolding map_fst_cands by (simp add: sorted_wrt_map)
qed

lemma length_cands: "length (cands i items l) = length (filter (\<lambda>r. fst r = l) items)"
  by (induction items arbitrary: i) (auto simp: cands_Cons)

lemma cands_empty_iff: "cands i items l = [] \<longleftrightarrow> l \<notin> fst ` set items"
  by (induction items arbitrary: i) (auto simp: cands_Cons)

subsection \<open>First loop\<close>

lemma label2id_loop_cands:
  "(\<forall>l d. label2id l = Some d \<longrightarrow> (\<forall>kv \<in> set d. fst kv < i)) \<Longrightarrow>
   label2id_loop i items label2id l =
     (case label2id l of
        None \<Rightarrow> (if cands i items l = [] then None else Some (cands i items l))
      | Some d \<Rightarrow> Some (d @ cands i items l))"
proof (induction items arbitrary: i label2id)
  case Nil
  then show ?case by (simp split: option.splits)
next
  case (Cons item rest)
  define d where "d = (case label2id (fst item) of None \<Rightarrow> [] | Some d \<Rightarrow> d)"
  define m where "m = label2id(fst item \<mapsto> dict_set d i (snd item))"
  have dkeys: "\<forall>kv \<in> set d. fst kv < i"
  proof (cases "label2id (fst item)")
    case None
    then show ?thesis by (simp add: d_def)
  next
    case (Some d')
    with Cons.prems show ?thesis by (simp add: d_def)
  qed
  then have new: "dict_set d i (snd item) = d @ [(i, snd item)]"
    by (intro dict_set_new) auto
  have inv: "\<forall>l d'. m l = Some d' \<longrightarrow> (\<forall>kv \<in> set d'. fst kv < Suc i)"
    using Cons.prems dkeys by (auto simp: m_def new less_Suc_eq)
  have step: "label2id_loop i (item # rest) label2id l = label2id_loop (Suc i) rest m l"
    by (simp add: d_def m_def)
  show ?case
  proof (cases "fst item = l")
    case True
    then have ml: "m l = Some (d @ [(i, snd item)])" by (simp add: m_def new)
    have c: "cands i (item # rest) l = (i, snd item) # cands (Suc i) rest l"
      using True by (simp add: cands_Cons)
    have "label2id_loop (Suc i) rest m l = Some (d @ (i, snd item) # cands (Suc i) rest l)"
      using Cons.IH [OF inv] ml by simp
    then show ?thesis
      unfolding step c using True by (simp add: d_def split: option.splits)
  next
    case False
    then have ml: "m l = label2id l" by (simp add: m_def)
    have c: "cands i (item # rest) l = cands (Suc i) rest l"
      using False by (simp add: cands_Cons)
    show ?thesis
      unfolding step c using Cons.IH [OF inv] ml by simp
  qed
qed

lemma label2id_loop_empty:
  "label2id_loop 0 id2conf Map.empty l =
     (if cands 0 id2conf l = [] then None else Some (cands 0 id2conf l))"
  using label2id_loop_cands [of Map.empty 0 id2conf l] by simp

subsection \<open>What is chosen for a label\<close>

lemma chosen_subset: "set (chosen id2conf k l) \<subseteq> fst ` set (cands 0 id2conf l)"
  unfolding chosen_def using set_py_slice_to [of "py_sorted_rev snd (cands 0 id2conf l)" k]
  by auto

lemma chosen_bound: "j \<in> set (chosen id2conf k l) \<Longrightarrow> j < length id2conf"
  using chosen_subset [of id2conf k l] by (auto simp: in_cands_iff)

lemma chosen_label: "j \<in> set (chosen id2conf k l) \<Longrightarrow> fst (id2conf ! j) = l"
  using chosen_subset [of id2conf k l] by (auto simp: in_cands_iff)

lemma distinct_chosen: "distinct (chosen id2conf k l)"
  unfolding chosen_def
  by (intro distinct_map_py_slice_to distinct_map_py_sorted_rev distinct_cands)

lemma length_chosen:
  "0 \<le> k \<Longrightarrow> length (chosen id2conf k l) = min (nat k) (length (filter (\<lambda>r. fst r = l) id2conf))"
  by (simp add: chosen_def length_py_slice_to length_cands)

lemma chosen_no_candidates: "l \<notin> fst ` set id2conf \<Longrightarrow> chosen id2conf k l = []"
proof -
  assume "l \<notin> fst ` set id2conf"
  then have "cands 0 id2conf l = []" by (simp add: cands_empty_iff)
  then show ?thesis by (simp add: chosen_def py_slice_to_def py_sorted_rev_def)
qed

lemma promoted_bound: "j \<in> set (promoted id2conf k n) \<Longrightarrow> j < length id2conf"
  by (auto simp: promoted_def dest: chosen_bound)

lemma distinct_concat_chosen: "distinct ls \<Longrightarrow> distinct (concat (map (chosen id2conf k) ls))"
proof (induction ls)
  case Nil
  then show ?case by simp
next
  case (Cons l ls)
  have "set (chosen id2conf k l) \<inter> set (concat (map (chosen id2conf k) ls)) = {}"
  proof (rule ccontr)
    assume "\<not> ?thesis"
    then obtain j l' where "j \<in> set (chosen id2conf k l)" "l' \<in> set ls"
      "j \<in> set (chosen id2conf k l')" by auto
    then have "l = l'" using chosen_label by blast
    with \<open>l' \<in> set ls\<close> Cons.prems show False by simp
  qed
  with Cons show ?case by (simp add: distinct_chosen)
qed

lemma distinct_promoted: "distinct (promoted id2conf k n)"
  unfolding promoted_def by (rule distinct_concat_chosen) simp

lemma length_promoted_le: "0 \<le> k \<Longrightarrow> length (promoted id2conf k n) \<le> nat k * n"
proof -
  assume k: "0 \<le> k"
  have "length (concat (map (chosen id2conf k) ls)) \<le> nat k * length ls" for ls
    by (induction ls) (auto simp: length_chosen k)
  from this [of "[0..<n]"] show ?thesis by (simp add: promoted_def)
qed

subsection \<open>The loops of the ranker\<close>

lemma promote_loop_result:
  "\<forall>kv \<in> set sl. fst kv < length (ud_unlabel_examples st) \<Longrightarrow>
   \<exists>st'. promote_loop i sl st = Inr st'
     \<and> id2train st' = id2train st @ map fst sl
     \<and> ud_train_examples st' = ud_train_examples st @ map (\<lambda>j. ud_unlabel_examples st ! j) (map fst sl)
     \<and> ud_unlabel_examples st' = ud_unlabel_examples st
     \<and> stdout st' = stdout st"
proof (induction sl arbitrary: st)
  case Nil
  then show ?case by simp
next
  case (Cons i2c sl)
  let ?ex = "ud_unlabel_examples st ! fst i2c"
  let ?st1 = "st\<lparr>id2train := id2train st @ [fst i2c],
                  objects := (objects st)(?ex := (objects st ?ex)\<lparr>label_id := i\<rparr>),
                  ud_train_examples := ud_train_examples st @ [?ex]\<rparr>"
  from Cons.prems have inb: "fst i2c < length (ud_unlabel_examples st)"
    and rest: "\<forall>kv \<in> set sl. fst kv < length (ud_unlabel_examples ?st1)"
    by simp_all
  from Cons.IH [OF rest] obtain st' where
    "promote_loop i sl ?st1 = Inr st'"
    "id2train st' = id2train ?st1 @ map fst sl"
    "ud_train_examples st' = ud_train_examples ?st1 @ map (\<lambda>j. ud_unlabel_examples ?st1 ! j) (map fst sl)"
    "ud_unlabel_examples st' = ud_unlabel_examples ?st1"
    "stdout st' = stdout ?st1"
    by blast
  then show ?case using inb by (simp add: Let_def)
qed

lemma promote_loop_bound:
  "promote_loop i sl st = Inr st' \<Longrightarrow> \<forall>kv \<in> set sl. fst kv < length (ud_unlabel_examples st)"
proof (induction sl arbitrary: st)
  case Nil
  then show ?case by simp
next
  case (Cons i2c sl)
  from Cons.prems have inb: "fst i2c < length (ud_unlabel_examples st)"
    by (simp split: if_splits)
  with Cons.prems Cons.IH show ?case
    by (fastforce simp: Let_def)
qed

lemma label_loop_result:
  assumes "\<forall>j \<in> set (concat (map (chosen id2conf k) ls)). j < length (ud_unlabel_examples st)"
  shows "\<exists>st'. label_loop (label2id_loop 0 id2conf Map.empty) k ls st = Inr st'
     \<and> id2train st' = id2train st @ concat (map (chosen id2conf k) ls)
     \<and> ud_train_examples st' = ud_train_examples st
          @ map (\<lambda>j. ud_unlabel_examples st ! j) (concat (map (chosen id2conf k) ls))
     \<and> ud_unlabel_examples st' = ud_unlabel_examples st
     \<and> stdout st' = stdout st
          @ map (\<lambda>c. ''no class '' @ str_nat c) (filter (\<lambda>c. c \<notin> fst ` set id2conf) ls)"
  using assms
proof (induction ls arbitrary: st)
  case Nil
  then show ?case by simp
next
  case (Cons l ls)
  let ?L = "label2id_loop 0 id2conf Map.empty"
  show ?case
  proof (cases "cands 0 id2conf l = []")
    case True
    then have none: "?L l = None" by (simp add: label2id_loop_empty)
    from True have nc: "l \<notin> fst ` set id2conf" by (simp add: cands_empty_iff)
    then have ch: "chosen id2conf k l = []" by (rule chosen_no_candidates)
    let ?st1 = "st\<lparr>stdout := stdout st @ [''no class '' @ str_nat l]\<rparr>"
    have "\<forall>j \<in> set (concat (map (chosen id2conf k) ls)). j < length (ud_unlabel_examples ?st1)"
      using Cons.prems by simp
    from Cons.IH [OF this] obtain st' where
      "label_loop ?L k ls ?st1 = Inr st'"
      "id2train st' = id2train ?st1 @ concat (map (chosen id2conf k) ls)"
      "ud_train_examples st' = ud_train_examples ?st1
          @ map (\<lambda>j. ud_unlabel_examples ?st1 ! j) (concat (map (chosen id2conf k) ls))"
      "ud_unlabel_examples st' = ud_unlabel_examples ?st1"
      "stdout st' = stdout ?st1
          @ map (\<lambda>c. ''no class '' @ str_nat c) (filter (\<lambda>c. c \<notin> fst ` set id2conf) ls)"
      by blast
    then show ?thesis using none nc ch by simp
  next
    case False
    then have some: "?L l = Some (cands 0 id2conf l)" by (simp add: label2id_loop_empty)
    from False have nc: "l \<in> fst ` set id2conf" by (simp add: cands_empty_iff)
    let ?sl = "py_slice_to (py_sorted_rev snd (cands 0 id2conf l)) k"
    have sl: "map fst ?sl = chosen id2conf k l" by (simp add: chosen_def)
    have "\<forall>kv \<in> set ?sl. fst kv < length (ud_unlabel_examples st)"
    proof
      fix kv assume "kv \<in> set ?sl"
      then have "fst kv \<in> set (chosen id2conf k l)" unfolding sl [symmetric] by simp
      with Cons.prems show "fst kv < length (ud_unlabel_examples st)" by simp
    qed
    from promote_loop_result [OF this, of l] obtain st1 where st1:
      "promote_loop l ?sl st = Inr st1"
      "id2train st1 = id2train st @ map fst ?sl"
      "ud_train_examples st1 = ud_train_examples st @ map (\<lambda>j. ud_unlabel_examples st ! j) (map fst ?sl)"
      "ud_unlabel_examples st1 = ud_unlabel_examples st"
      "stdout st1 = stdout st"
      by blast
    have "\<forall>j \<in> set (concat (map (chosen id2conf k) ls)). j < length (ud_unlabel_examples st1)"
      using Cons.prems st1(4) by simp
    from Cons.IH [OF this] obtain st' where
      "label_loop ?L k ls st1 = Inr st'"
      "id2train st' = id2train st1 @ concat (map (chosen id2conf k) ls)"
      "ud_train_examples st' = ud_train_examples st1
          @ map (\<lambda>j. ud_unlabel_examples st1 ! j) (concat (map (chosen id2conf k) ls))"
      "ud_unlabel_examples st' = ud_unlabel_examples st1"
      "stdout st' = stdout st1
          @ map (\<lambda>c. ''no class '' @ str_nat c) (filter (\<lambda>c. c \<notin> fst ` set id2conf) ls)"
      by blast
    then show ?thesis using some nc st1 unfolding sl by simp
  qed
qed

lemma label_loop_bound:
  "label_loop (label2id_loop 0 id2conf Map.empty) k ls st = Inr st' \<Longrightarrow>
   \<forall>j \<in> set (concat (map (chosen id2conf k) ls)). j < length (ud_unlabel_examples st)"
proof (induction ls arbitrary: st)
  case Nil
  then show ?case by simp
next
  case (Cons l ls)
  let ?L = "label2id_loop 0 id2conf Map.empty"
  show ?case
  proof (cases "cands 0 id2conf l = []")
    case True
    then have none: "?L l = None" by (simp add: label2id_loop_empty)
    from True have "l \<notin> fst ` set id2conf" by (simp add: cands_empty_iff)
    then have ch: "chosen id2conf k l = []" by (rule chosen_no_candidates)
    from Cons.prems none
    have "label_loop ?L k ls (st\<lparr>stdout := stdout st @ [''no class '' @ str_nat l]\<rparr>) = Inr st'"
      by simp
    from Cons.IH [OF this] ch show ?thesis by simp
  next
    case False
    then have some: "?L l = Some (cands 0 id2conf l)" by (simp add: label2id_loop_empty)
    let ?sl = "py_slice_to (py_sorted_rev snd (cands 0 id2conf l)) k"
    have sl: "map fst ?sl = chosen id2conf k l" by (simp add: chosen_def)
    from Cons.prems some obtain st1 where p: "promote_loop l ?sl st = Inr st1"
      and r: "label_loop ?L k ls st1 = Inr st'"
      by (auto split: sum.splits)
    from promote_loop_bound [OF p]
    have b1: "\<forall>kv \<in> set ?sl. fst kv < length (ud_unlabel_examples st)" .
    then have b1': "\<forall>j \<in> set (chosen id2conf k l). j < length (ud_unlabel_examples st)"
      unfolding sl [symmetric] by simp
    from promote_loop_result [OF b1, of l] p
    have "ud_unlabel_examples st1 = ud_unlabel_examples st" by auto
    with Cons.IH [OF r] b1' show ?thesis by auto
  qed
qed

lemma del_loop_result:
  "sorted_wrt (>) idx \<Longrightarrow> \<forall>i \<in> set idx. i < length xs \<Longrightarrow>
   del_loop idx xs = Inr (map (\<lambda>j. xs ! j) (filter (\<lambda>j. j \<notin> set idx) [0..<length xs]))"
proof (induction idx arbitrary: xs)
  case Nil
  then show ?case by (simp add: map_nth)
next
  case (Cons a idx)
  let ?xs1 = "take a xs @ drop (Suc a) xs"
  let ?n = "length xs"
  from Cons.prems have a: "a < ?n" and below: "\<forall>i \<in> set idx. i < a"
    and srt: "sorted_wrt (>) idx" by auto
  have len1: "length ?xs1 = ?n - 1" using a by simp
  have inb: "\<forall>i \<in> set idx. i < length ?xs1" using below a by auto
  have step: "del_loop (a # idx) xs = del_loop idx ?xs1"
    using a by (simp add: py_del_def)
  have low: "map (\<lambda>j. ?xs1 ! j) (filter (\<lambda>j. j \<notin> set idx) [0..<a])
           = map (\<lambda>j. xs ! j) (filter (\<lambda>j. j \<notin> set idx) [0..<a])"
    using a by (intro map_cong refl) (simp add: nth_append)
  have high1: "filter (\<lambda>j. j \<notin> set idx) [a..<?n - 1] = [a..<?n - 1]"
    using below by (intro filter_True) auto
  have high2: "filter (\<lambda>j. j \<noteq> a \<and> j \<notin> set idx) [Suc a..<?n] = [Suc a..<?n]"
    using below by (intro filter_True) auto
  have low2: "filter (\<lambda>j. j \<noteq> a \<and> j \<notin> set idx) [0..<a] = filter (\<lambda>j. j \<notin> set idx) [0..<a]"
    by (intro filter_cong refl) auto
  have tail1: "map (\<lambda>j. ?xs1 ! j) [a..<?n - 1] = drop (Suc a) xs"
  proof (rule nth_equalityI)
    show "length (map (\<lambda>j. ?xs1 ! j) [a..<?n - 1]) = length (drop (Suc a) xs)"
      using a by simp
  next
    fix i assume "i < length (map (\<lambda>j. ?xs1 ! j) [a..<?n - 1])"
    then have i: "a + i < ?n - 1" by simp
    then show "map (\<lambda>j. ?xs1 ! j) [a..<?n - 1] ! i = drop (Suc a) xs ! i"
      using a by (simp add: nth_append)
  qed
  have tail2: "map (\<lambda>j. xs ! j) [Suc a..<?n] = drop (Suc a) xs"
    by (rule nth_equalityI) (use a in auto)
  have split1: "[0..<?n - 1] = [0..<a] @ [a..<?n - 1]"
    using a upt_add_eq_append [of 0 a "?n - 1 - a"] by simp
  have split2: "[0..<?n] = [0..<a] @ a # [Suc a..<?n]"
    using a upt_add_eq_append [of 0 a "?n - a"] by (simp add: upt_conv_Cons)
  have "del_loop idx ?xs1 = Inr (map (\<lambda>j. ?xs1 ! j) (filter (\<lambda>j. j \<notin> set idx) [0..<length ?xs1]))"
    by (rule Cons.IH [OF srt inb])
  also have "map (\<lambda>j. ?xs1 ! j) (filter (\<lambda>j. j \<notin> set idx) [0..<length ?xs1])
      = map (\<lambda>j. xs ! j) (filter (\<lambda>j. j \<notin> set idx) [0..<a]) @ drop (Suc a) xs"
    unfolding len1 split1 by (simp only: filter_append map_append high1 low tail1)
  also have "\<dots> = map (\<lambda>j. xs ! j) (filter (\<lambda>j. j \<notin> set (a # idx)) [0..<?n])"
    unfolding split2 by (simp add: low2 high2 tail2)
  finally show ?case unfolding step .
qed

lemma py_sorted_rev_indices:
  "distinct idx \<Longrightarrow> sorted_wrt (>) (py_sorted_rev (\<lambda>index. index) idx)"
proof -
  assume "distinct idx"
  then have "sorted_wrt (<) (sort_key (\<lambda>index. index) (rev idx))"
    by (simp add: strict_sorted_iff)
  then show ?thesis
    by (simp add: py_sorted_rev_def sorted_wrt_rev)
qed

lemma length_filter_not_in:
  assumes "distinct P" and "\<forall>j \<in> set P. j < n"
  shows "length (filter (\<lambda>j. j \<notin> set P) [0..<n]) + length P = n"
proof -
  have "distinct (filter (\<lambda>j. j \<in> set P) [0..<n])" by simp
  moreover have "set (filter (\<lambda>j. j \<in> set P) [0..<n]) = set P"
    using assms(2) by auto
  ultimately have "length (filter (\<lambda>j. j \<in> set P) [0..<n]) = length P"
    using assms(1) by (metis distinct_card)
  moreover have "length (filter (\<lambda>j. j \<in> set P) [0..<n])
      + length (filter (\<lambda>j. \<not> j \<in> set P) [0..<n]) = length [0..<n]"
    by (rule sum_length_filter_compl)
  ultimately show ?thesis by simp
qed

lemma sort_pools_shape:
  assumes "\<forall>j \<in> set (promoted id2conf k (length label_list)). j < length unl"
  shows "\<exists>st. sort_pools h train_examples unl label_list id2conf k = Inr st
     \<and> id2train st = promoted id2conf k (length label_list)
     \<and> ud_train_examples st = train_examples @ map (\<lambda>j. unl ! j) (promoted id2conf k (length label_list))
     \<and> ud_unlabel_examples st
         = map (\<lambda>j. unl ! j) (filter (\<lambda>j. j \<notin> set (promoted id2conf k (length label_list))) [0..<length unl])
     \<and> stdout st = map (\<lambda>c. ''no class '' @ str_nat c)
                      (filter (\<lambda>c. c \<notin> fst ` set id2conf) [0..<length label_list])"
proof -
  let ?P = "promoted id2conf k (length label_list)"
  let ?st0 = "\<lparr>objects = h, ud_train_examples = train_examples,
                 ud_unlabel_examples = unl, id2train = [], stdout = []\<rparr>"
  have "\<forall>j \<in> set (concat (map (chosen id2conf k) [0..<length label_list])).
          j < length (ud_unlabel_examples ?st0)"
    using assms by (simp add: promoted_def)
  from label_loop_result [OF this] obtain st1 where st1:
    "label_loop (label2id_loop 0 id2conf Map.empty) k [0..<length label_list] ?st0 = Inr st1"
    "id2train st1 = ?P"
    "ud_train_examples st1 = train_examples @ map (\<lambda>j. unl ! j) ?P"
    "ud_unlabel_examples st1 = unl"
    "stdout st1 = map (\<lambda>c. ''no class '' @ str_nat c)
                      (filter (\<lambda>c. c \<notin> fst ` set id2conf) [0..<length label_list])"
    by (auto simp: promoted_def)
  let ?idx = "py_sorted_rev (\<lambda>index. index) ?P"
  have "sorted_wrt (>) ?idx"
    by (rule py_sorted_rev_indices [OF distinct_promoted])
  moreover have "\<forall>i \<in> set ?idx. i < length unl"
    using assms by simp
  ultimately have del: "del_loop ?idx unl
      = Inr (map (\<lambda>j. unl ! j) (filter (\<lambda>j. j \<notin> set ?idx) [0..<length unl]))"
    by (rule del_loop_result)
  have "sort_pools h train_examples unl label_list id2conf k
      = Inr (st1\<lparr>ud_unlabel_examples := map (\<lambda>j. unl ! j) (filter (\<lambda>j. j \<notin> set ?P) [0..<length unl])\<rparr>)"
    using st1 del by (simp add: sort_pools_def)
  then show ?thesis using st1 by simp
qed

lemma sort_pools_bound:
  assumes "sort_pools h train_examples unl label_list id2conf k = Inr st"
  shows "\<forall>j \<in> set (promoted id2conf k (length label_list)). j < length unl"
proof -
  let ?st0 = "\<lparr>objects = h, ud_train_examples = train_examples,
                 ud_unlabel_examples = unl, id2train = [], stdout = []\<rparr>"
  from assms obtain st1 where
    "label_loop (label2id_loop 0 id2conf Map.empty) k [0..<length label_list] ?st0 = Inr st1"
    by (auto simp: sort_pools_def split: sum.splits)
  from label_loop_bound [OF this] show ?thesis by (simp add: promoted_def)
qed

lemma sort_pools_contract:
  "length id2conf \<le> length unl \<Longrightarrow>
   \<forall>j \<in> set (promoted id2conf k (length label_list)). j < length unl"
  using promoted_bound [of _ id2conf k "length label_list"] by fastforce

lemma promote_loop_error: "promote_loop i sl st = Inl e \<Longrightarrow> e = IndexError"
  by (induction sl arbitrary: st) (auto simp: Let_def split: if_splits)

lemma label_loop_error: "label_loop label2id k ls st = Inl e \<Longrightarrow> e = IndexError"
  by (induction ls arbitrary: st) (auto split: option.splits sum.splits dest: promote_loop_error)

lemma del_loop_error: "del_loop idx xs = Inl e \<Longrightarrow> e = IndexError"
  by (induction idx arbitrary: xs) (auto simp: py_del_def split: if_splits)

lemma sort_pools_error:
  "sort_pools h train_examples unl label_list id2conf k = Inl e \<Longrightarrow> e = IndexError"
  by (auto simp: sort_pools_def split: sum.splits dest: label_loop_error del_loop_error)

subsection \<open>Ties between candidates\<close>

lemma sorted_fst_cands: "sorted_wrt (\<lambda>p q. fst p < fst q) (cands i items l)"
  using sorted_cands [of i items l] by (simp add: sorted_wrt_map)

lemma first_of_equal_scores:
  assumes "sorted_wrt (\<lambda>p q. fst p < fst q) (C :: (nat \<times> real) list)"
    and "py_sorted_rev snd C = (m, c) # S'" and "(i, c) \<in> set C"
  shows "m \<le> i"
proof -
  let ?F = "filter (\<lambda>kv. snd kv = c) C"
  have "filter (\<lambda>kv. snd kv = c) (py_sorted_rev snd C) = ?F"
    by (rule py_sorted_rev_stable)
  then have F: "?F = (m, c) # filter (\<lambda>kv. snd kv = c) S'"
    using assms(2) by simp
  have "sorted_wrt (\<lambda>p q. fst p < fst q) ?F"
    by (rule sorted_wrt_filter [OF assms(1)])
  then have "\<forall>q \<in> set (filter (\<lambda>kv. snd kv = c) S'). m < fst q"
    unfolding F by simp
  moreover have "(i, c) \<in> set ?F" using assms(3) by simp
  ultimately show ?thesis unfolding F by auto
qed

lemma tie_higher_not_first:
  assumes "sorted_wrt (\<lambda>p q. fst p < fst q) (C :: (nat \<times> real) list)"
    and "(i, c) \<in> set C" and "(j, c) \<in> set C" and "i < j"
  shows "j \<notin> set (map fst (take 1 (py_sorted_rev snd C)))"
proof
  assume "j \<in> set (map fst (take 1 (py_sorted_rev snd C)))"
  then obtain c' S' where S: "py_sorted_rev snd C = (j, c') # S'"
    by (cases "py_sorted_rev snd C") auto
  then have "(j, c') \<in> set (py_sorted_rev snd C)" by simp
  then have jc': "(j, c') \<in> set C" by simp
  have "distinct (map fst C)"
    using assms(1) by (simp add: sorted_wrt_map [symmetric] strict_sorted_iff)
  from eq_key_imp_eq_value [OF this jc' assms(3)] have "c' = c" .
  with first_of_equal_scores [OF assms(1) _ assms(2)] S have "j \<le> i" by simp
  with assms(4) show False by simp
qed

lemma top_tie_is_first:
  assumes "sorted_wrt (\<lambda>p q. fst p < fst q) (C :: (nat \<times> real) list)"
    and "(i, c) \<in> set C" and "\<forall>kv \<in> set C. snd kv \<le> c" and "\<forall>m < i. (m, c) \<notin> set C"
  shows "take 1 (py_sorted_rev snd C) = [(i, c)]"
proof -
  let ?S = "py_sorted_rev snd C"
  have "(i, c) \<in> set ?S" using assms(2) by simp
  then obtain m c' S' where S: "?S = (m, c') # S'"
    by (cases ?S) auto
  have "(m, c') \<in> set ?S" unfolding S by simp
  then have mc': "(m, c') \<in> set C" by simp
  with assms(3) have le: "c' \<le> c" by auto
  have "sorted (rev (map snd ?S))" by (rule py_sorted_rev_descending)
  then have "\<forall>x \<in> set (map snd S'). x \<le> c'"
    unfolding S by (simp add: sorted_append)
  with \<open>(i, c) \<in> set ?S\<close> have "c \<le> c'"
    unfolding S by force
  with le have c': "c' = c" by simp
  from first_of_equal_scores [OF assms(1) _ assms(2)] S c' have "m \<le> i" by simp
  moreover have "\<not> m < i" using assms(4) mc' c' by auto
  ultimately have "m = i" by simp
  with S c' show ?thesis by simp
qed

lemma chosen_one: "chosen id2conf 1 l = map fst (take 1 (py_sorted_rev snd (cands 0 id2conf l)))"
  by (simp add: chosen_def py_slice_to_def)

lemma in_promoted_iff:
  "j \<in> set (promoted id2conf k n) \<longleftrightarrow> (\<exists>l < n. j \<in> set (chosen id2conf k l))"
  by (auto simp: promoted_def)

subsection \<open>Pool size, disjointness, empty classes and ties\<close>

text \<open>
  C3. For all pools, every label vocabulary, every list of confidence records with one
  record per unlabeled example, and every \<open>K \<ge> 0\<close>, one call of the ranker returns
  pools with \<open>|labeled'| + |unlabeled'| = |labeled| + |unlabeled|\<close> and
  \<open>|labeled'| - |labeled| \<le> K * |label vocabulary|\<close>.
\<close>

theorem sort_pools_conserves_size:
  assumes "length id2conf = length unl" and "0 \<le> num_k"
  shows "\<exists>st. sort_pools h train_examples unl label_list id2conf num_k = Inr st
     \<and> length (ud_train_examples st) + length (ud_unlabel_examples st) = length train_examples + length unl
     \<and> int (length (ud_train_examples st)) - int (length train_examples) \<le> num_k * int (length label_list)"
proof -
  let ?P = "promoted id2conf num_k (length label_list)"
  have b: "\<forall>j \<in> set ?P. j < length unl"
    using assms(1) by (intro sort_pools_contract) simp
  from sort_pools_shape [OF b] obtain st where st:
    "sort_pools h train_examples unl label_list id2conf num_k = Inr st"
    "ud_train_examples st = train_examples @ map (\<lambda>j. unl ! j) ?P"
    "ud_unlabel_examples st = map (\<lambda>j. unl ! j) (filter (\<lambda>j. j \<notin> set ?P) [0..<length unl])"
    by blast
  have "length (filter (\<lambda>j. j \<notin> set ?P) [0..<length unl]) + length ?P = length unl"
    by (rule length_filter_not_in [OF distinct_promoted b])
  then have total: "length (ud_train_examples st) + length (ud_unlabel_examples st)
      = length train_examples + length unl"
    using st by simp
  have "length ?P \<le> nat num_k * length label_list"
    by (rule length_promoted_le [OF assms(2)])
  then have "int (length ?P) \<le> int (nat num_k) * int (length label_list)"
    by (metis of_nat_le_iff of_nat_mult)
  then have "int (length (ud_train_examples st)) - int (length train_examples)
      \<le> num_k * int (length label_list)"
    using st assms(2) by simp
  with st(1) total show ?thesis by blast
qed

theorem sort_pools_conserves_size_witness:
  "length [(0::nat, 91/100::real), (0, 91/100), (1, 1/2), (3, 7/10), (0, 9/10)]
     = length [10::nat, 11, 12, 13, 14] \<and> (0::int) \<le> 1
   \<and> (\<exists>st. sort_pools (\<lambda>r. \<lparr>input_ids = [], input_mask = [], segment_ids = [], label_id = 0\<rparr>)
              [100] [10, 11, 12, 13, 14] [''CCAT'', ''ECAT'', ''MCAT'', ''GCAT'']
              [(0, 91/100), (0, 91/100), (1, 1/2), (3, 7/10), (0, 9/10)] 1 = Inr st
        \<and> length (ud_train_examples st) + length (ud_unlabel_examples st)
            = length [100::nat] + length [10::nat, 11, 12, 13, 14]
        \<and> int (length (ud_train_examples st)) - int (length [100::nat])
            \<le> 1 * int (length [''CCAT'', ''ECAT'', ''MCAT'', ''GCAT'']))"
proof -
  have h1: "length [(0::nat, 91/100::real), (0, 91/100), (1, 1/2), (3, 7/10), (0, 9/10)]
     = length [10::nat, 11, 12, 13, 14]" by simp
  have h2: "(0::int) \<le> 1" by simp
  from sort_pools_conserves_size [OF h1 h2] h1 h2 show ?thesis by blast
qed

text \<open>
  C7. The pools of \<^verbatim>\<open>main\<close> list every example once: \<^verbatim>\<open>convert_examples_to_features\<close>
  makes a fresh object for each example, and the pools change through the ranker only.
  For such pools that share no example before the call, the call either raises
  \<open>IndexError\<close>, which needs more confidence records than unlabeled examples, or
  returns pools that share no example: every promoted example is in the labeled pool and
  no longer in the unlabeled pool. The resulting pools again list every example once.
\<close>

theorem sort_pools_disjoint:
  assumes "distinct unl" and "set train_examples \<inter> set unl = {}"
  shows "case sort_pools h train_examples unl label_list id2conf num_k of
           Inl e \<Rightarrow> e = IndexError \<and> length unl < length id2conf
         | Inr st \<Rightarrow>
             set (ud_train_examples st) \<inter> set (ud_unlabel_examples st) = {}
             \<and> (\<forall>j \<in> set (id2train st). unl ! j \<in> set (ud_train_examples st)
                                         \<and> unl ! j \<notin> set (ud_unlabel_examples st))
             \<and> distinct (ud_unlabel_examples st)
             \<and> (distinct train_examples \<longrightarrow> distinct (ud_train_examples st))"
proof (cases "sort_pools h train_examples unl label_list id2conf num_k")
  case (Inl e)
  have "length unl < length id2conf"
  proof (rule ccontr)
    assume "\<not> length unl < length id2conf"
    then have "length id2conf \<le> length unl" by simp
    from sort_pools_shape [OF sort_pools_contract [OF this]] Inl show False
      by (metis sum.distinct(1))
  qed
  moreover have "e = IndexError"
    using Inl sort_pools_error by blast
  ultimately show ?thesis using Inl by simp
next
  case (Inr st)
  let ?P = "promoted id2conf num_k (length label_list)"
  let ?keep = "filter (\<lambda>j. j \<notin> set ?P) [0..<length unl]"
  have b: "\<forall>j \<in> set ?P. j < length unl"
    by (rule sort_pools_bound [OF Inr])
  from sort_pools_shape [OF b, of h train_examples] Inr have st:
    "id2train st = ?P"
    "ud_train_examples st = train_examples @ map (\<lambda>j. unl ! j) ?P"
    "ud_unlabel_examples st = map (\<lambda>j. unl ! j) ?keep"
    by auto
  have apart: "unl ! j \<noteq> unl ! m" if "j \<in> set ?P" "m < length unl" "m \<notin> set ?P" for j m
  proof -
    from that b have "j < length unl" "j \<noteq> m" by auto
    with assms(1) that(2) show ?thesis by (simp add: nth_eq_iff_index_eq)
  qed
  have kept: "set (ud_unlabel_examples st) \<subseteq> set unl"
    unfolding st by auto
  have "set (map (\<lambda>j. unl ! j) ?P) \<inter> set (ud_unlabel_examples st) = {}"
    unfolding st using apart by auto
  moreover have "set train_examples \<inter> set (ud_unlabel_examples st) = {}"
    using assms(2) kept by blast
  ultimately have disj: "set (ud_train_examples st) \<inter> set (ud_unlabel_examples st) = {}"
    unfolding st(2) by auto
  have "\<forall>j \<in> set (id2train st). unl ! j \<in> set (ud_train_examples st)"
    unfolding st by simp
  with disj have moved: "\<forall>j \<in> set (id2train st). unl ! j \<in> set (ud_train_examples st)
                                         \<and> unl ! j \<notin> set (ud_unlabel_examples st)"
    by blast
  have "inj_on (nth unl) (set ?keep)"
    by (rule inj_on_nth [OF assms(1)]) simp
  then have d_unl: "distinct (ud_unlabel_examples st)"
    unfolding st by (simp add: distinct_map)
  have "inj_on (nth unl) (set ?P)"
    by (rule inj_on_nth [OF assms(1) b])
  then have d_new: "distinct (map (\<lambda>j. unl ! j) ?P)"
    by (simp add: distinct_map distinct_promoted)
  have "set (map (\<lambda>j. unl ! j) ?P) \<subseteq> set unl"
    using b by auto
  with assms(2) have "set train_examples \<inter> set (map (\<lambda>j. unl ! j) ?P) = {}"
    by blast
  with d_new have d_train: "distinct train_examples \<longrightarrow> distinct (ud_train_examples st)"
    unfolding st(2) by simp
  from disj moved d_unl d_train Inr show ?thesis by simp
qed

theorem sort_pools_disjoint_witness:
  "distinct [10::nat, 11, 12, 13, 14] \<and> set [100] \<inter> set [10::nat, 11, 12, 13, 14] = {}
   \<and> distinct [100::nat]
   \<and> (\<exists>st. sort_pools (\<lambda>r. \<lparr>input_ids = [], input_mask = [], segment_ids = [], label_id = 0\<rparr>)
              [100] [10, 11, 12, 13, 14] [''CCAT'', ''ECAT'', ''MCAT'', ''GCAT'']
              [(0, 91/100), (0, 91/100), (1, 1/2), (3, 7/10), (0, 9/10)] 1 = Inr st
        \<and> set (ud_train_examples st) \<inter> set (ud_unlabel_examples st) = {}
        \<and> (\<forall>j \<in> set (id2train st). [10, 11, 12, 13, 14] ! j \<in> set (ud_train_examples st)
                                    \<and> [10, 11, 12, 13, 14] ! j \<notin> set (ud_unlabel_examples st))
        \<and> distinct (ud_unlabel_examples st) \<and> distinct (ud_train_examples st))"
proof -
  let ?h = "\<lambda>r::nat. \<lparr>input_ids = [], input_mask = [], segment_ids = [], label_id = 0\<rparr>"
  let ?unl = "[10::nat, 11, 12, 13, 14]"
  let ?recs = "[(0::nat, 91/100::real), (0, 91/100), (1, 1/2), (3, 7/10), (0, 9/10)]"
  let ?run = "sort_pools ?h [100] ?unl [''CCAT'', ''ECAT'', ''MCAT'', ''GCAT''] ?recs 1"
  have h1: "distinct ?unl" by simp
  have h2: "set [100] \<inter> set ?unl = {}" by simp
  have h3: "distinct [100::nat]" by simp
  have len: "\<not> length ?unl < length ?recs" by simp
  show ?thesis
  proof (cases ?run)
    case (Inl e)
    with sort_pools_disjoint [where h = ?h and label_list = "[''CCAT'', ''ECAT'', ''MCAT'', ''GCAT'']"
        and id2conf = ?recs and num_k = 1, OF h1 h2] len
    show ?thesis by simp
  next
    case (Inr st)
    with sort_pools_disjoint [where h = ?h and label_list = "[''CCAT'', ''ECAT'', ''MCAT'', ''GCAT'']"
        and id2conf = ?recs and num_k = 1, OF h1 h2] h1 h2 h3
    show ?thesis by simp
  qed
qed

text \<open>
  C8. When some class \<open>c\<close> of the vocabulary has no candidate among the confidence
  records (one record per unlabeled example, \<open>K \<ge> 0\<close>), the ranker returns normally; it
  prints the line \<open>no class c\<close>, and prints such a line for exactly the classes without
  candidates; nothing is promoted for \<open>c\<close>; for every class \<open>l\<close> of the vocabulary it
  promotes \<open>min K (number of records predicting l)\<close> examples, all of them predicted
  \<open>l\<close>, appended to the labeled pool in class order; and the total pool size is
  unchanged.
\<close>

theorem sort_pools_skips_empty_class:
  assumes "length id2conf = length unl" and "0 \<le> num_k"
    and "c < length label_list" and "c \<notin> fst ` set id2conf"
  shows "\<exists>st. sort_pools h train_examples unl label_list id2conf num_k = Inr st
     \<and> (''no class '' @ str_nat c) \<in> set (stdout st)
     \<and> stdout st = map (\<lambda>c. ''no class '' @ str_nat c)
                      (filter (\<lambda>c. c \<notin> fst ` set id2conf) [0..<length label_list])
     \<and> chosen id2conf num_k c = []
     \<and> ud_train_examples st
         = train_examples @ map (\<lambda>j. unl ! j) (concat (map (chosen id2conf num_k) [0..<length label_list]))
     \<and> (\<forall>l < length label_list.
           length (chosen id2conf num_k l) = min (nat num_k) (length (filter (\<lambda>r. fst r = l) id2conf))
           \<and> (\<forall>j \<in> set (chosen id2conf num_k l). j < length unl \<and> fst (id2conf ! j) = l))
     \<and> length (ud_train_examples st) + length (ud_unlabel_examples st) = length train_examples + length unl"
proof -
  let ?P = "promoted id2conf num_k (length label_list)"
  have b: "\<forall>j \<in> set ?P. j < length unl"
    using assms(1) by (intro sort_pools_contract) simp
  from sort_pools_shape [OF b] obtain st where st:
    "sort_pools h train_examples unl label_list id2conf num_k = Inr st"
    "ud_train_examples st = train_examples @ map (\<lambda>j. unl ! j) ?P"
    "ud_unlabel_examples st = map (\<lambda>j. unl ! j) (filter (\<lambda>j. j \<notin> set ?P) [0..<length unl])"
    "stdout st = map (\<lambda>c. ''no class '' @ str_nat c)
                      (filter (\<lambda>c. c \<notin> fst ` set id2conf) [0..<length label_list])"
    by blast
  have line: "(''no class '' @ str_nat c) \<in> set (stdout st)"
    unfolding st(4) using assms(3,4) by (simp add: image_iff) blast
  have none: "chosen id2conf num_k c = []"
    by (rule chosen_no_candidates [OF assms(4)])
  have each: "\<forall>l < length label_list.
           length (chosen id2conf num_k l) = min (nat num_k) (length (filter (\<lambda>r. fst r = l) id2conf))
           \<and> (\<forall>j \<in> set (chosen id2conf num_k l). j < length unl \<and> fst (id2conf ! j) = l)"
    using assms(1,2) by (auto simp: length_chosen dest: chosen_bound chosen_label)
  have "length (filter (\<lambda>j. j \<notin> set ?P) [0..<length unl]) + length ?P = length unl"
    by (rule length_filter_not_in [OF distinct_promoted b])
  then have total: "length (ud_train_examples st) + length (ud_unlabel_examples st)
      = length train_examples + length unl"
    using st by simp
  from st(1) line st(4) none st(2) each total show ?thesis
    unfolding promoted_def by blast
qed

theorem sort_pools_skips_empty_class_witness:
  "length [(0::nat, 91/100::real), (0, 91/100), (1, 1/2), (3, 7/10), (0, 9/10)]
     = length [10::nat, 11, 12, 13, 14] \<and> (0::int) \<le> 1
   \<and> 2 < length [''CCAT'', ''ECAT'', ''MCAT'', ''GCAT'']
   \<and> 2 \<notin> fst ` set [(0::nat, 91/100::real), (0, 91/100), (1, 1/2), (3, 7/10), (0, 9/10)]
   \<and> (\<exists>st. sort_pools (\<lambda>r. \<lparr>input_ids = [], input_mask = [], segment_ids = [], label_id = 0\<rparr>)
              [100] [10, 11, 12, 13, 14] [''CCAT'', ''ECAT'', ''MCAT'', ''GCAT'']
              [(0, 91/100), (0, 91/100), (1, 1/2), (3, 7/10), (0, 9/10)] 1 = Inr st
        \<and> ''no class 2'' \<in> set (stdout st)
        \<and> length (ud_train_examples st) + length (ud_unlabel_examples st) = 6)"
proof -
  let ?recs = "[(0::nat, 91/100::real), (0, 91/100), (1, 1/2), (3, 7/10), (0, 9/10)]"
  have h1: "length ?recs = length [10::nat, 11, 12, 13, 14]" by simp
  have h2: "(0::int) \<le> 1" by simp
  have h3: "2 < length [''CCAT'', ''ECAT'', ''MCAT'', ''GCAT'']" by simp
  have h4: "2 \<notin> fst ` set ?recs" by simp
  have s: "''no class '' @ str_nat 2 = ''no class 2''" by (simp add: str_nat.simps)
  have n: "length [100::nat] + length [10::nat, 11, 12, 13, 14] = 6" by simp
  from sort_pools_skips_empty_class [OF h1 h2 h3 h4,
      of "\<lambda>r. \<lparr>input_ids = [], input_mask = [], segment_ids = [], label_id = 0\<rparr>" "[100]"]
  obtain st where
    "sort_pools (\<lambda>r. \<lparr>input_ids = [], input_mask = [], segment_ids = [], label_id = 0\<rparr>)
              [100] [10, 11, 12, 13, 14] [''CCAT'', ''ECAT'', ''MCAT'', ''GCAT''] ?recs 1 = Inr st"
    "(''no class '' @ str_nat 2) \<in> set (stdout st)"
    "length (ud_train_examples st) + length (ud_unlabel_examples st)
       = length [100::nat] + length [10::nat, 11, 12, 13, 14]"
    by blast
  with h1 h2 h3 h4 show ?thesis unfolding s n by blast
qed

text \<open>
  C4, as stated: whenever two unlabeled examples have the same score for the same
  predicted class and \<open>K = 1\<close>, the ranker selects the one with the lower pool index.
  This fails when the tie is not at the top of the class. Here the records at indices 0
  and 1 tie at \<open>1/2\<close> for class 0 and the record at index 2 has \<open>9/10\<close> for the same
  class: the ranker promotes the example at index 2 and neither of the tied ones.
\<close>

theorem sort_pools_tie_below_top:
  "[(0::nat, 1/2::real), (0, 1/2), (0, 9/10)] ! 0 = [(0::nat, 1/2::real), (0, 1/2), (0, 9/10)] ! 1
   \<and> map_sum id id2train
        (sort_pools (\<lambda>r. \<lparr>input_ids = [], input_mask = [], segment_ids = [], label_id = 0\<rparr>)
           [] [10, 11, 12] [''CCAT'', ''ECAT'', ''MCAT'', ''GCAT'']
           [(0, 1/2), (0, 1/2), (0, 9/10)] 1) = Inr [2]
   \<and> map_sum id ud_train_examples
        (sort_pools (\<lambda>r. \<lparr>input_ids = [], input_mask = [], segment_ids = [], label_id = 0\<rparr>)
           [] [10, 11, 12] [''CCAT'', ''ECAT'', ''MCAT'', ''GCAT'']
           [(0, 1/2), (0, 1/2), (0, 9/10)] 1) = Inr [12]
   \<and> map_sum id ud_unlabel_examples
        (sort_pools (\<lambda>r. \<lparr>input_ids = [], input_mask = [], segment_ids = [], label_id = 0\<rparr>)
           [] [10, 11, 12] [''CCAT'', ''ECAT'', ''MCAT'', ''GCAT'']
           [(0, 1/2), (0, 1/2), (0, 9/10)] 1) = Inr [10, 11]"
  by (simp add: sort_pools_def py_sorted_rev_def py_slice_to_def py_del_def str_nat.simps)

text \<open>
  C4, amended. Scores are floats that are not NaN, so that they are ordered as reals.
  The descending sort of the ranker keeps candidates with equal scores in their
  original order and puts higher scores first. With \<open>K = 1\<close> and one record per
  unlabeled example: when the records at pool indices \<open>i < j\<close> carry the same predicted
  class and the same score, the example at the higher index \<open>j\<close> is not promoted and
  stays in the unlabeled pool; and when the class is in the vocabulary, that score is
  the highest of the class and no earlier record of the class has it, the example at
  \<open>i\<close> is the one promoted for the class.
\<close>

theorem sort_pools_tie_break:
  assumes "length id2conf = length unl"
    and "i < j" and "j < length id2conf"
    and "id2conf ! i = (l, c)" and "id2conf ! j = (l, c)"
  shows "(\<forall>(i2cs :: (nat \<times> real) list) s.
            filter (\<lambda>kv. snd kv = s) (py_sorted_rev snd i2cs) = filter (\<lambda>kv. snd kv = s) i2cs
            \<and> sorted (rev (map snd (py_sorted_rev snd i2cs))))
     \<and> (\<exists>st. sort_pools h train_examples unl label_list id2conf 1 = Inr st
           \<and> j \<notin> set (id2train st)
           \<and> unl ! j \<in> set (ud_unlabel_examples st)
           \<and> (l < length label_list
                \<and> (\<forall>m < length id2conf. fst (id2conf ! m) = l \<longrightarrow> snd (id2conf ! m) \<le> c)
                \<and> (\<forall>m < i. id2conf ! m \<noteq> (l, c))
              \<longrightarrow> chosen id2conf 1 l = [i] \<and> i \<in> set (id2train st)
                  \<and> unl ! i \<in> set (ud_train_examples st)))"
proof -
  let ?P = "promoted id2conf 1 (length label_list)"
  let ?C = "cands 0 id2conf l"
  have stable: "\<forall>(i2cs :: (nat \<times> real) list) s.
            filter (\<lambda>kv. snd kv = s) (py_sorted_rev snd i2cs) = filter (\<lambda>kv. snd kv = s) i2cs
            \<and> sorted (rev (map snd (py_sorted_rev snd i2cs)))"
    by (simp add: py_sorted_rev_stable py_sorted_rev_descending)
  have b: "\<forall>j \<in> set ?P. j < length unl"
    using assms(1) by (intro sort_pools_contract) simp
  from sort_pools_shape [OF b] obtain st where st:
    "sort_pools h train_examples unl label_list id2conf 1 = Inr st"
    "id2train st = ?P"
    "ud_train_examples st = train_examples @ map (\<lambda>j. unl ! j) ?P"
    "ud_unlabel_examples st = map (\<lambda>j. unl ! j) (filter (\<lambda>j. j \<notin> set ?P) [0..<length unl])"
    by blast
  have iC: "(i, c) \<in> set ?C" and jC: "(j, c) \<in> set ?C"
    using assms(2-5) by (simp_all add: in_cands_iff)
  have "j \<notin> set (chosen id2conf 1 l)"
    unfolding chosen_one by (rule tie_higher_not_first [OF sorted_fst_cands iC jC assms(2)])
  moreover have "l' = l" if "j \<in> set (chosen id2conf 1 l')" for l'
    using chosen_label [OF that] assms(5) by simp
  ultimately have jP: "j \<notin> set ?P"
    by (auto simp: in_promoted_iff)
  then have stay: "unl ! j \<in> set (ud_unlabel_examples st)"
    unfolding st using assms(1,3) by (simp add: image_iff) blast
  have top: "chosen id2conf 1 l = [i] \<and> i \<in> set (id2train st) \<and> unl ! i \<in> set (ud_train_examples st)"
    if l: "l < length label_list"
      and hi: "\<forall>m < length id2conf. fst (id2conf ! m) = l \<longrightarrow> snd (id2conf ! m) \<le> c"
      and first: "\<forall>m < i. id2conf ! m \<noteq> (l, c)"
  proof -
    have "\<forall>kv \<in> set ?C. snd kv \<le> c"
      using hi by (auto simp: in_cands_iff)
    moreover have "\<forall>m < i. (m, c) \<notin> set ?C"
      using first by (auto simp: in_cands_iff)
    ultimately have "take 1 (py_sorted_rev snd ?C) = [(i, c)]"
      by (rule top_tie_is_first [OF sorted_fst_cands iC])
    then have ch: "chosen id2conf 1 l = [i]" by (simp add: chosen_one)
    with l have "i \<in> set ?P" by (auto simp: in_promoted_iff)
    with ch show ?thesis using st(2,3) by simp
  qed
  have jst: "j \<notin> set (id2train st)" using jP st(2) by simp
  have "l < length label_list
          \<and> (\<forall>m < length id2conf. fst (id2conf ! m) = l \<longrightarrow> snd (id2conf ! m) \<le> c)
          \<and> (\<forall>m < i. id2conf ! m \<noteq> (l, c))
        \<longrightarrow> chosen id2conf 1 l = [i] \<and> i \<in> set (id2train st)
            \<and> unl ! i \<in> set (ud_train_examples st)"
    using top by blast
  with stable st(1) jst stay show ?thesis by blast
qed

theorem sort_pools_tie_break_witness:
  "length [(0::nat, 91/100::real), (0, 91/100)] = length [10::nat, 11]
   \<and> (0::nat) < 1 \<and> 1 < length [(0::nat, 91/100::real), (0, 91/100)]
   \<and> [(0::nat, 91/100::real), (0, 91/100)] ! 0 = (0, 91/100)
   \<and> [(0::nat, 91/100::real), (0, 91/100)] ! 1 = (0, 91/100)
   \<and> (\<exists>st. sort_pools (\<lambda>r. \<lparr>input_ids = [], input_mask = [], segment_ids = [], label_id = 0\<rparr>)
              [100] [10, 11] [''CCAT'', ''ECAT'', ''MCAT'', ''GCAT'']
              [(0, 91/100), (0, 91/100)] 1 = Inr st
        \<and> 1 \<notin> set (id2train st) \<and> 0 \<in> set (id2train st)
        \<and> [10, 11] ! 1 \<in> set (ud_unlabel_examples st)
        \<and> [10, 11] ! 0 \<in> set (ud_train_examples st))"
proof -
  let ?recs = "[(0::nat, 91/100::real), (0, 91/100)]"
  let ?labels = "[''CCAT'', ''ECAT'', ''MCAT'', ''GCAT'']"
  have h1: "length ?recs = length [10::nat, 11]" by simp
  have h2: "(0::nat) < 1" by simp
  have h3: "1 < length ?recs" by simp
  have h4: "?recs ! 0 = (0, 91/100)" by simp
  have h5: "?recs ! 1 = (0, 91/100)" by simp
  have top: "0 < length ?labels
      \<and> (\<forall>m < length ?recs. fst (?recs ! m) = 0 \<longrightarrow> snd (?recs ! m) \<le> 91/100)
      \<and> (\<forall>m < (0::nat). ?recs ! m \<noteq> (0, 91/100))"
    by (simp add: less_Suc_eq)
  from sort_pools_tie_break [OF h1 h2 h3 h4 h5,
      of "\<lambda>r. \<lparr>input_ids = [], input_mask = [], segment_ids = [], label_id = 0\<rparr>" "[100]" ?labels]
    top h1 h2 h3 h4 h5
  show ?thesis by blast
qed

section \<open>Properties of the training loop and the orchestrator\<close>










end
